theory Spec2Isabelle
  imports Main "HOL-Library.Sublist" "HOL-Library.AList" "HOL-Library.Char_ord"
    "HOL-Library.List_Lexorder" "HOL-Library.Product_Lexorder"
begin

section \<open>Strings\<close>

text \<open>
  URLs and field names are Python \<open>str\<close> values. They are modelled as \<open>string\<close>, one
  \<open>char\<close> per code point, for the code points below 256 (Latin-1), on which
  \<open>str.lower\<close>, \<open>str.strip\<close> and the comparison of strings act character by character.
\<close>

definition lower_char :: "char \<Rightarrow> char" where
  \<comment> \<open>\<open>str.lower\<close> on one code point: A-Z, and the Latin-1 capitals except the
      multiplication sign, move up by 32.\<close>
  "lower_char c =
     (let n = (of_char c :: nat)
      in if (65 \<le> n \<and> n \<le> 90) \<or> (192 \<le> n \<and> n \<le> 222 \<and> n \<noteq> 215)
         then char_of (n + 32) else c)"

definition lower :: "string \<Rightarrow> string" where
  "lower s = map lower_char s"

definition rstrip_chars :: "char set \<Rightarrow> string \<Rightarrow> string" where
  \<comment> \<open>\<open>s.rstrip(chars)\<close>: every trailing character that is in \<open>chars\<close> is removed.\<close>
  "rstrip_chars cs s = rev (dropWhile (\<lambda>c. c \<in> cs) (rev s))"

definition is_space :: "char \<Rightarrow> bool" where
  \<comment> \<open>\<open>str.isspace\<close> below code point 256.\<close>
  "is_space c =
     (let n = (of_char c :: nat)
      in (9 \<le> n \<and> n \<le> 13) \<or> (28 \<le> n \<and> n \<le> 32) \<or> n = 133 \<or> n = 160)"

definition strip :: "string \<Rightarrow> string" where
  \<comment> \<open>\<open>s.strip()\<close>: leading and trailing whitespace removed.\<close>
  "strip s = rev (dropWhile is_space (rev (dropWhile is_space s)))"

fun str_in :: "string \<Rightarrow> string \<Rightarrow> bool" where
  \<comment> \<open>\<open>sub in s\<close> on strings: \<open>sub\<close> occurs in \<open>s\<close> as a contiguous run.\<close>
  "str_in sub [] = (sub = [])"
| "str_in sub (c # cs) = (prefix sub (c # cs) \<or> str_in sub cs)"

section \<open>URL normaliser\<close>

definition EXCLUDED_EXTENSIONS :: "string list" where
  "EXCLUDED_EXTENSIONS =
     [''png'', ''jpg'', ''jpeg'', ''gif'', ''webp'', ''pdf'', ''docx'', ''xlsx'', ''zip'', ''rar'']"

definition normalize_url :: "string \<Rightarrow> string" where
  \<comment> \<open>\<open>url.lower().rstrip('/')\<close>\<close>
  "normalize_url url = rstrip_chars {CHR ''/''} (lower url)"

text \<open>
  \<open>urlparse\<close> and \<open>urljoin\<close> belong to the standard library, not to this program. They
  are parameters of the model: \<open>urlparse u\<close> gives the scheme and the netloc of \<open>u\<close>,
  \<open>urljoin base href\<close> the resolved reference, and \<open>None\<close> stands for the \<open>ValueError\<close>
  both can raise on a malformed authority.
\<close>

type_synonym urlparse = "string \<Rightarrow> (string \<times> string) option"
type_synonym urljoin = "string \<Rightarrow> string \<Rightarrow> string option"

definition get_domain :: "urlparse \<Rightarrow> string \<Rightarrow> string option" where
  \<comment> \<open>\<open>'{uri.scheme}://{uri.netloc}'.format(uri=urlparse(url))\<close>\<close>
  "get_domain up url =
     (case up url of
        None \<Rightarrow> None
      | Some (scheme, netloc) \<Rightarrow> Some (scheme @ ''://'' @ netloc))"

definition sanitise_url :: "string \<Rightarrow> string" where
  \<comment> \<open>\<open>re.match(r'http(s?)://', url)\<close> anchors at the start of the string. The
      function has no \<open>raise\<close> and calls nothing that raises on a \<open>str\<close>.\<close>
  "sanitise_url url =
     (if \<not> (prefix ''http://'' url \<or> prefix ''https://'' url)
      then normalize_url (''http://'' @ url)
      else normalize_url url)"

definition pagination_patterns :: "string list" where
  \<comment> \<open>The regular expressions of the source are escaped literals; each is listed here
      as the text it matches.\<close>
  "pagination_patterns =
     [''?page='', ''?p='', ''?pg='', ''?pagenumber='', ''?start='', ''?offset='',
      ''/page/'', ''/p/'', ''/pages/'', ''#page='']"

definition is_pagination_link :: "string \<Rightarrow> bool" where
  \<comment> \<open>\<open>re.search\<close> of the alternation: some pattern occurs somewhere in the link.\<close>
  "is_pagination_link link = list_ex (\<lambda>p. str_in p link) pagination_patterns"

section \<open>Page fetcher and extractor\<close>

datatype error = AttributeError | KeyError | ValueError | IndexError

datatype pyval = PyStr string | PyInt int

text \<open>
  \<open>page_data\<close> is a Python dict: an association list in insertion order, written with
  \<open>AList.update\<close> (an existing key keeps its place and gets the new value, a new key goes
  to the end) and read with \<open>map_of\<close>.
\<close>

type_synonym page_data = "(string \<times> pyval) list"

text \<open>
  What the program reads from the parsed document (\<open>BeautifulSoup(response.text)\<close>):
  the \<open>.text\<close> of every h1 and h2 element, \<open>soup.title\<close> (\<open>None\<close>: no title element;
  \<open>Some None\<close>: a title element whose \<open>.string\<close> is \<open>None\<close>, such as an empty one),
  the first \<open>meta name="description"\<close> tag (\<open>Some None\<close>: a tag without a \<open>content\<close>
  attribute) and the \<open>href\<close> of every anchor that has one.
\<close>

record soup =
  h1 :: "string list"
  h2 :: "string list"
  title :: "string option option"
  meta_description :: "string option option"
  hrefs :: "string list"

record response =
  content_type :: "string option"
  status_code :: int
  html :: soup

datatype fetched = Failed | Response response

fun str_nat :: "nat \<Rightarrow> string" where
  \<comment> \<open>The decimal numeral that an f-string prints for a non-negative \<open>int\<close>.\<close>
  "str_nat n =
     (if n < 10 then [char_of (48 + n)]
      else str_nat (n div 10) @ [char_of (48 + n mod 10)])"

declare str_nat.simps [simp del]

definition heading_name :: "string \<Rightarrow> nat \<Rightarrow> string" where
  \<comment> \<open>\<open>f'{h_tag} - {i}'\<close>\<close>
  "heading_name h_tag i = h_tag @ '' - '' @ str_nat i"

definition heading_fields :: "string \<Rightarrow> string list \<Rightarrow> page_data \<Rightarrow> page_data" where
  \<comment> \<open>\<open>for i, tag_text in enumerate(tags, 1): page_data[f'{h_tag} - {i}'] = tag_text\<close>\<close>
  "heading_fields h_tag tags page_data =
     fold (\<lambda>(i, tag_text). AList.update (heading_name h_tag i) (PyStr tag_text))
       (List.enumerate 1 tags) page_data"

definition title_field :: "string option option \<Rightarrow> error + string" where
  \<comment> \<open>\<open>soup.title.string.strip() if soup.title else ''\<close>\<close>
  "title_field t =
     (case t of
        None \<Rightarrow> Inr ''''
      | Some None \<Rightarrow> Inl AttributeError
      | Some (Some s) \<Rightarrow> Inr (strip s))"

definition meta_field :: "string option option \<Rightarrow> error + string" where
  \<comment> \<open>\<open>soup.find('meta', ...)['content'].strip() if soup.find('meta', ...) else ''\<close>\<close>
  "meta_field m =
     (case m of
        None \<Rightarrow> Inr ''''
      | Some None \<Rightarrow> Inl KeyError
      | Some (Some s) \<Rightarrow> Inr (strip s))"

definition keep_link :: "string \<Rightarrow> string \<Rightarrow> string \<Rightarrow> bool" where
  \<comment> \<open>The condition of lines 61 to 64, with \<open>d\<close> the value of \<open>get_domain(link)\<close>.\<close>
  "keep_link d domain link \<longleftrightarrow>
     d = domain \<and>
     \<not> list_ex (\<lambda>ext. str_in ext link) EXCLUDED_EXTENSIONS \<and>
     \<not> list_ex (\<lambda>pattern. str_in pattern link) [''cart'', ''search'', ''terms-of-service''] \<and>
     \<not> str_in ''#'' link"

fun collect_links :: "urlparse \<Rightarrow> urljoin \<Rightarrow> string \<Rightarrow> string \<Rightarrow> string list \<Rightarrow> error + string list" where
  \<comment> \<open>The loop over \<open>soup.find_all('a', href=True)\<close>.\<close>
  "collect_links up uj url domain [] = Inr []"
| "collect_links up uj url domain (href # rest) =
     (case uj url href of
        None \<Rightarrow> Inl ValueError
      | Some joined \<Rightarrow>
          (let link = normalize_url joined
           in case get_domain up link of
                None \<Rightarrow> Inl ValueError
              | Some d \<Rightarrow>
                  (case collect_links up uj url domain rest of
                     Inl e \<Rightarrow> Inl e
                   | Inr links \<Rightarrow> Inr (if keep_link d domain link then link # links else links))))"

definition scrape_page ::
  "urlparse \<Rightarrow> urljoin \<Rightarrow> string \<Rightarrow> string \<Rightarrow> fetched \<Rightarrow> error + (page_data option \<times> string list)" where
  \<comment> \<open>\<open>Failed\<close>: \<open>requests.get\<close> raised, which the \<open>try\<close> turns into \<open>(None, [])\<close>. What
      follows the \<open>try\<close> is not guarded: its exceptions leave the function (\<open>Inl\<close>).\<close>
  "scrape_page up uj url domain r =
     (case r of
        Failed \<Rightarrow> Inr (None, [])
      | Response resp \<Rightarrow>
          if \<not> str_in ''text/html'' (case content_type resp of None \<Rightarrow> '''' | Some ct \<Rightarrow> ct)
          then Inr (None, [])
          else
            (let page_data = [(''URL'', PyStr url), (''Status code'', PyInt (status_code resp))];
                 page_data = heading_fields ''H1'' (map strip (h1 (html resp))) page_data;
                 page_data = heading_fields ''H2'' (map strip (h2 (html resp))) page_data
             in case title_field (title (html resp)) of
                  Inl e \<Rightarrow> Inl e
                | Inr t \<Rightarrow>
                    (case meta_field (meta_description (html resp)) of
                       Inl e \<Rightarrow> Inl e
                     | Inr m \<Rightarrow>
                         (let page_data = AList.update ''Title'' (PyStr t) page_data;
                              page_data = AList.update ''META Description'' (PyStr m) page_data
                          in case collect_links up uj url domain (hrefs (html resp)) of
                               Inl e \<Rightarrow> Inl e
                             | Inr links \<Rightarrow> Inr (Some page_data, links)))))"

section \<open>Frontier and crawl coordinator\<close>

text \<open>
  The threads of the program are modelled as an interleaving of atomic steps, one per
  operation that the source makes atomic: \<open>Queue.get\<close>, the block under
  \<open>visited_urls_lock\<close> in \<open>worker\<close>, the body of \<open>process_url\<close> up to its loop over the
  links, and one iteration of that loop (a block under \<open>visited_urls_lock\<close>). The
  body of \<open>process_url\<close> is one step because it touches \<open>all_headers\<close>, \<open>all_rows\<close> and
  \<open>retry_urls\<close> only: the other steps of the workers neither read nor write them, and
  each of its writes is one atomic update of one of them. Which
  worker moves next, what a fetch returns and the order in which the set \<open>all_headers\<close>
  is iterated are chosen by the environment: they are the parameters of the events.

  A worker is between two of these operations: about to call \<open>get\<close> (\<open>Idle\<close>), holding a
  dequeued URL (\<open>Got\<close>), having marked it visited (\<open>Claimed\<close>), iterating over the links
  of a page (\<open>Linking\<close>), or out of its loop (\<open>Exited\<close>).

  \<open>fetch_log\<close> is not a variable of the program: it records each call of
  \<open>scrape_page\<close>, with the pass in which it is made, so that fetches can be counted.
\<close>

datatype wstate = Idle | Got string | Claimed string | Linking "string list" | Exited

datatype phase = Pass1 | Pass2 | Writing | Finished

record csv_file =
  filename :: string
  fieldnames :: "string list"
  data_rows :: "string list list"

record state =
  start_url :: string
  domain :: string
  visited_urls :: "string set"
  to_visit_urls :: "string list"
  unfinished_tasks :: nat
  all_headers :: "string set"
  all_rows :: "page_data list"
  retry_urls :: "string list"
  workers :: "wstate list"
  phase :: phase
  csv_output :: "(error + csv_file) option"
  fetch_log :: "(phase \<times> string) list"

datatype event =
    Get nat
  | Empty nat
  | Check nat
  | Process nat fetched
  | Link nat
  | Join
  | WriteCsv "string list"

definition base_headers :: "string list" where
  "base_headers = [''Status code'', ''URL'', ''Title'', ''META Description'']"

definition main_init :: "urlparse \<Rightarrow> string \<Rightarrow> error + state" where
  \<comment> \<open>Lines 70 to 88. \<open>sanitise_url\<close> cannot raise, so the \<open>except ValueError\<close> branch of
      the source is never taken; \<open>get_domain\<close> is called outside that \<open>try\<close>.\<close>
  "main_init up input_url =
     (let start = sanitise_url input_url
      in case get_domain up start of
           None \<Rightarrow> Inl ValueError
         | Some d \<Rightarrow>
             Inr \<lparr>start_url = start, domain = d, visited_urls = {},
                  to_visit_urls = [start], unfinished_tasks = 1,
                  all_headers = set [''URL'', ''Title'', ''META Description'', ''Status code''],
                  all_rows = [], retry_urls = [],
                  workers = replicate 10 Idle, phase = Pass1, csv_output = None,
                  fetch_log = []\<rparr>)"

definition put :: "string \<Rightarrow> state \<Rightarrow> state" where
  \<comment> \<open>\<open>to_visit_urls.put(link)\<close>\<close>
  "put u s = s\<lparr>to_visit_urls := to_visit_urls s @ [u],
               unfinished_tasks := Suc (unfinished_tasks s)\<rparr>"

definition task_done :: "nat \<Rightarrow> state \<Rightarrow> state" where
  \<comment> \<open>\<open>to_visit_urls.task_done()\<close> followed by the next iteration of \<open>while True\<close>. Called
      once too often it raises \<open>ValueError\<close>, which the worker's \<open>except\<close> turns into
      \<open>break\<close>.\<close>
  "task_done w s =
     (if unfinished_tasks s = 0 then s\<lparr>workers := (workers s)[w := Exited]\<rparr>
      else s\<lparr>unfinished_tasks := unfinished_tasks s - 1,
              workers := (workers s)[w := Idle]\<rparr>)"

definition process_url ::
  "urlparse \<Rightarrow> urljoin \<Rightarrow> string \<Rightarrow> fetched \<Rightarrow> state \<Rightarrow> state \<times> (error + string list)" where
  \<comment> \<open>Lines 90 to 105: the state after them and either the exception that left the
      function or the links that its final loop has still to go through.\<close>
  "process_url up uj current_url r s =
     (if is_pagination_link current_url then (s, Inr [])
      else
        (let s = s\<lparr>fetch_log := fetch_log s @ [(phase s, current_url)]\<rparr>
         in case scrape_page up uj current_url (domain s) r of
              Inl e \<Rightarrow> (s, Inl e)
            | Inr (None, links) \<Rightarrow> (s, Inr [])
            | Inr (Some page_data, links) \<Rightarrow>
                if page_data = [] then (s, Inr [])
                else
                  (let s = s\<lparr>all_headers := all_headers s \<union> fst ` set page_data\<rparr>
                   in case map_of page_data ''Status code'' of
                        None \<Rightarrow> (s, Inl KeyError)
                      | Some code \<Rightarrow>
                          if code = PyInt 429
                          then (s\<lparr>retry_urls := retry_urls s @ [current_url]\<rparr>, Inr [])
                          else (s\<lparr>all_rows := all_rows s @ [page_data]\<rparr>, Inr links))))"

fun split_on :: "char \<Rightarrow> string \<Rightarrow> string list" where
  \<comment> \<open>\<open>s.split(c)\<close> for a one-character separator.\<close>
  "split_on c [] = [[]]"
| "split_on c (x # xs) =
     (if x = c then [] # split_on c xs
      else (case split_on c xs of [] \<Rightarrow> [[x]] | p # ps \<Rightarrow> (x # p) # ps))"

definition is_digit :: "char \<Rightarrow> bool" where
  "is_digit c \<longleftrightarrow> 48 \<le> (of_char c :: nat) \<and> (of_char c :: nat) \<le> 57"

fun digits_ok :: "string \<Rightarrow> bool" where
  \<comment> \<open>A digit, then digits each preceded by at most one underscore.\<close>
  "digits_ok [] = False"
| "digits_ok [c] = is_digit c"
| "digits_ok (c # d # cs) =
     (is_digit c \<and> (if d = CHR ''_'' then digits_ok cs else digits_ok (d # cs)))"

definition digits_value :: "string \<Rightarrow> nat" where
  "digits_value ds = foldl (\<lambda>acc c. 10 * acc + (of_char c - 48)) 0 (filter is_digit ds)"

definition int_of_str :: "string \<Rightarrow> int option" where
  \<comment> \<open>\<open>int(s)\<close> in base 10: surrounding whitespace, an optional sign, digits;
      \<open>None\<close> is \<open>ValueError\<close>.\<close>
  "int_of_str s =
     (case strip s of
        [] \<Rightarrow> None
      | c # cs \<Rightarrow>
          if c = CHR ''-'' then (if digits_ok cs then Some (- int (digits_value cs)) else None)
          else if c = CHR ''+'' then (if digits_ok cs then Some (int (digits_value cs)) else None)
          else if digits_ok (c # cs) then Some (int (digits_value (c # cs))) else None)"

definition column_key :: "string \<Rightarrow> error + (string \<times> int)" where
  \<comment> \<open>The \<open>key\<close> of line 147.\<close>
  "column_key x =
     (if str_in ''-'' x then
        (case split_on (CHR ''-'') x of
           a # b # _ \<Rightarrow>
             if prefix ''H'' a
             then (case int_of_str b of None \<Rightarrow> Inl ValueError | Some n \<Rightarrow> Inr (a, n))
             else Inr (x, 0)
         | _ \<Rightarrow> Inl IndexError)
      else Inr (x, 0))"

fun all_keys :: "('a \<Rightarrow> error + 'k) \<Rightarrow> 'a list \<Rightarrow> error + 'k list" where
  \<comment> \<open>\<open>f\<close> on every element in turn, up to the first exception.\<close>
  "all_keys f [] = Inr []"
| "all_keys f (x # xs) =
     (case f x of
        Inl e \<Rightarrow> Inl e
      | Inr k \<Rightarrow> (case all_keys f xs of Inl e \<Rightarrow> Inl e | Inr ks \<Rightarrow> Inr (k # ks)))"

definition sorted_by :: "('a \<Rightarrow> error + 'k::linorder) \<Rightarrow> 'a list \<Rightarrow> error + 'a list" where
  \<comment> \<open>\<open>sorted(xs, key=f)\<close>: every key is computed first, then the list is sorted by key,
      stably.\<close>
  "sorted_by f xs =
     (case all_keys f xs of
        Inl e \<Rightarrow> Inl e
      | Inr ks \<Rightarrow> Inr (map snd (sort_key fst (zip ks xs))))"

definition column_order :: "string list \<Rightarrow> error + string list" where
  \<comment> \<open>Lines 145 to 147; the argument is \<open>all_headers\<close> in the order in which the set is
      iterated.\<close>
  "column_order headers =
     (case sorted_by column_key
             (filter (\<lambda>col. col \<notin> set [''URL'', ''Title'', ''META Description'', ''Status code''])
                headers) of
        Inl e \<Rightarrow> Inl e
      | Inr rest \<Rightarrow> Inr (base_headers @ rest))"

definition str_val :: "pyval \<Rightarrow> string" where
  \<comment> \<open>How the csv writer prints a cell.\<close>
  "str_val v =
     (case v of
        PyStr s \<Rightarrow> s
      | PyInt i \<Rightarrow> (if i < 0 then ''-'' @ str_nat (nat (- i)) else str_nat (nat i)))"

definition writerow :: "string list \<Rightarrow> page_data \<Rightarrow> error + string list" where
  \<comment> \<open>\<open>csv.DictWriter.writerow\<close>: a key that is no field name raises \<open>ValueError\<close>, a
      missing field is written empty.\<close>
  "writerow cols row =
     (if list_ex (\<lambda>k. k \<notin> set cols) (map fst row) then Inl ValueError
      else Inr (map (\<lambda>c. case map_of row c of None \<Rightarrow> '''' | Some v \<Rightarrow> str_val v) cols))"

definition sanitised_filename :: "string \<Rightarrow> string" where
  \<comment> \<open>The \<open>re.sub\<close> of line 142 and the suffix of line 143.\<close>
  "sanitised_filename url =
     map (\<lambda>c. if c \<in> set [CHR 0x5C, CHR ''/'', CHR '':'', CHR ''*'', CHR ''?'', CHR 0x22,
                          CHR ''<'', CHR ''>'', CHR ''|''] \<or> is_space c
              then CHR ''_'' else c) url
     @ ''_scraped_results.csv''"

definition write_csv :: "string list \<Rightarrow> state \<Rightarrow> error + csv_file" where
  \<comment> \<open>Lines 142 to 153.\<close>
  "write_csv headers s =
     (case column_order headers of
        Inl e \<Rightarrow> Inl e
      | Inr cols \<Rightarrow>
          (case all_keys (writerow cols) (all_rows s) of
             Inl e \<Rightarrow> Inl e
           | Inr rows \<Rightarrow>
               Inr \<lparr>filename = sanitised_filename (start_url s), fieldnames = cols,
                    data_rows = rows\<rparr>))"

fun step :: "urlparse \<Rightarrow> urljoin \<Rightarrow> event \<Rightarrow> state \<Rightarrow> state option" where
  \<comment> \<open>\<open>to_visit_urls.get(timeout=2)\<close> returns the head of the queue.\<close>
  "step up uj (Get w) s =
     (if w < length (workers s) \<and> workers s ! w = Idle then
        (case to_visit_urls s of
           [] \<Rightarrow> None
         | u # q \<Rightarrow> Some (s\<lparr>to_visit_urls := q, workers := (workers s)[w := Got u]\<rparr>))
      else None)"
  \<comment> \<open>\<open>get\<close> times out on an empty queue: \<open>queue.Empty\<close>, caught, \<open>break\<close>.\<close>
| "step up uj (Empty w) s =
     (if w < length (workers s) \<and> workers s ! w = Idle \<and> to_visit_urls s = []
      then Some (s\<lparr>workers := (workers s)[w := Exited]\<rparr>)
      else None)"
  \<comment> \<open>Lines 115 to 119, under \<open>visited_urls_lock\<close>.\<close>
| "step up uj (Check w) s =
     (if w < length (workers s) then
        (case workers s ! w of
           Got current_url \<Rightarrow>
             if current_url \<in> visited_urls s then Some (task_done w s)
             else Some (s\<lparr>visited_urls := insert current_url (visited_urls s),
                          workers := (workers s)[w := Claimed current_url]\<rparr>)
         | _ \<Rightarrow> None)
      else None)"
  \<comment> \<open>Line 121 up to the loop of line 106; an exception ends the worker (line 123).\<close>
| "step up uj (Process w r) s =
     (if w < length (workers s) then
        (case workers s ! w of
           Claimed current_url \<Rightarrow>
             (case process_url up uj current_url r s of
                (s', Inl e) \<Rightarrow> Some (s'\<lparr>workers := (workers s')[w := Exited]\<rparr>)
              | (s', Inr links) \<Rightarrow> Some (s'\<lparr>workers := (workers s')[w := Linking links]\<rparr>))
         | _ \<Rightarrow> None)
      else None)"
  \<comment> \<open>One iteration of lines 106 to 109, or, after the last, line 122.\<close>
| "step up uj (Link w) s =
     (if w < length (workers s) then
        (case workers s ! w of
           Linking [] \<Rightarrow> Some (task_done w s)
         | Linking (link # links) \<Rightarrow>
             Some ((if link \<notin> visited_urls s then put link s else s)
                     \<lparr>workers := (workers s)[w := Linking links]\<rparr>)
         | _ \<Rightarrow> None)
      else None)"
  \<comment> \<open>The main thread leaves a \<open>with ThreadPoolExecutor\<close> block: \<open>join\<close> has returned
      and every worker has ended. After the first block, lines 132 to 138.\<close>
| "step up uj Join s =
     (if unfinished_tasks s = 0 \<and> list_all (\<lambda>w. w = Exited) (workers s) then
        (case phase s of
           Pass1 \<Rightarrow>
             if retry_urls s \<noteq> []
             then Some ((fold put (retry_urls s) s)\<lparr>workers := replicate 5 Idle, phase := Pass2\<rparr>)
             else Some (s\<lparr>phase := Writing\<rparr>)
         | Pass2 \<Rightarrow> Some (s\<lparr>phase := Writing\<rparr>)
         | _ \<Rightarrow> None)
      else None)"
  \<comment> \<open>Lines 142 to 153, with \<open>headers\<close> an enumeration of the set \<open>all_headers\<close>.\<close>
| "step up uj (WriteCsv headers) s =
     (if phase s = Writing \<and> distinct headers \<and> set headers = all_headers s
      then Some (s\<lparr>phase := Finished, csv_output := Some (write_csv headers s)\<rparr>)
      else None)"

inductive reachable :: "urlparse \<Rightarrow> urljoin \<Rightarrow> string \<Rightarrow> state \<Rightarrow> bool"
  for up :: urlparse and uj :: urljoin and input_url :: string where
  start: "main_init up input_url = Inr s \<Longrightarrow> reachable up uj input_url s"
| step: "reachable up uj input_url s \<Longrightarrow> step up uj e s = Some s' \<Longrightarrow> reachable up uj input_url s'"

fun run :: "urlparse \<Rightarrow> urljoin \<Rightarrow> event list \<Rightarrow> state \<Rightarrow> state option" where
  \<comment> \<open>A schedule: the events in the order in which they happen.\<close>
  "run up uj [] s = Some s"
| "run up uj (e # es) s = (case step up uj e s of None \<Rightarrow> None | Some s' \<Rightarrow> run up uj es s')"

definition crawl :: "urlparse \<Rightarrow> urljoin \<Rightarrow> string \<Rightarrow> event list \<Rightarrow> state option" where
  \<comment> \<open>The program from the input of the seed, under a schedule.\<close>
  "crawl up uj input_url es =
     (case main_init up input_url of Inl e \<Rightarrow> None | Inr s \<Rightarrow> run up uj es s)"

section \<open>Invariants of the crawl\<close>

text \<open>
  What holds between the fetch log, the visited set, the retry list and the workers in
  every reachable state: no URL is logged twice, every logged URL is marked visited, a
  URL a worker has claimed is marked visited and not yet logged, and no two workers have
  claimed the same URL.
\<close>

definition inv_once :: "state \<Rightarrow> bool" where
  "inv_once s \<longleftrightarrow>
     distinct (map snd (fetch_log s)) \<and>
     snd ` set (fetch_log s) \<subseteq> visited_urls s \<and>
     set (retry_urls s) \<subseteq> snd ` set (fetch_log s) \<and>
     (\<forall>i<length (workers s). \<forall>u. workers s ! i = Claimed u \<longrightarrow>
        u \<in> visited_urls s \<and> u \<notin> snd ` set (fetch_log s)) \<and>
     (\<forall>i<length (workers s). \<forall>j<length (workers s). \<forall>u.
        workers s ! i = Claimed u \<and> workers s ! j = Claimed u \<longrightarrow> i = j)"

text \<open>
  For the retry pass: every fetch is logged in the first pass; the queue and the workers
  that hold a URL never outnumber the unfinished tasks; and once the first pass is over,
  the queue and the workers hold only URLs that are marked visited.
\<close>

definition busy :: "wstate \<Rightarrow> nat" where
  "busy w = (case w of Idle \<Rightarrow> 0 | Exited \<Rightarrow> 0 | _ \<Rightarrow> 1)"

definition settled :: "string set \<Rightarrow> wstate \<Rightarrow> bool" where
  "settled V w = (case w of Idle \<Rightarrow> True | Exited \<Rightarrow> True | Got u \<Rightarrow> u \<in> V | _ \<Rightarrow> False)"

definition inv_retry :: "state \<Rightarrow> bool" where
  "inv_retry s \<longleftrightarrow>
     fst ` set (fetch_log s) \<subseteq> {Pass1} \<and>
     length (to_visit_urls s) + sum_list (map busy (workers s)) \<le> unfinished_tasks s \<and>
     (phase s \<noteq> Pass1 \<longrightarrow>
        set (to_visit_urls s) \<subseteq> visited_urls s \<and>
        (\<forall>i<length (workers s). settled (visited_urls s) (workers s ! i)))"

text \<open>
  For domain containment: every URL in the queue, in the retry list or in the hands of a
  worker, and the URL of every row, has the domain of the seed.
\<close>

definition worker_urls :: "wstate \<Rightarrow> string set" where
  "worker_urls w = (case w of Got u \<Rightarrow> {u} | Claimed u \<Rightarrow> {u} | Linking ls \<Rightarrow> set ls | _ \<Rightarrow> {})"

definition held_urls :: "state \<Rightarrow> string set" where
  "held_urls s = set (to_visit_urls s) \<union> set (retry_urls s) \<union> (\<Union>w\<in>set (workers s). worker_urls w)"

definition inv_domain :: "urlparse \<Rightarrow> string \<Rightarrow> state \<Rightarrow> bool" where
  "inv_domain up input_url s \<longleftrightarrow>
     start_url s = sanitise_url input_url \<and>
     get_domain up (sanitise_url input_url) = Some (domain s) \<and>
     (\<forall>u\<in>held_urls s. get_domain up u = Some (domain s)) \<and>
     (\<forall>row\<in>set (all_rows s). \<exists>u. map_of row ''URL'' = Some (PyStr u) \<and> get_domain up u = Some (domain s))"

text \<open>
  For the report: the key under which a column is sorted, the heading columns in report
  order, and the invariant that \<open>all_headers\<close> holds the four base names and, for each
  heading level, the names numbered from 1 up to some bound.
\<close>

definition key_of :: "string \<Rightarrow> string \<times> int" where
  "key_of x = (case column_key x of Inr k \<Rightarrow> k | Inl e \<Rightarrow> (x, 0))"

definition heading_columns :: "nat \<Rightarrow> nat \<Rightarrow> string list" where
  "heading_columns n m =
     map (heading_name ''H1'') [1..<Suc n] @ map (heading_name ''H2'') [1..<Suc m]"

definition inv_headers :: "state \<Rightarrow> bool" where
  "inv_headers s \<longleftrightarrow>
     (\<exists>n m. all_headers s = set base_headers \<union> set (heading_columns n m))"

section \<open>A concrete site for the examples\<close>

text \<open>
  An instance of the two library parameters, for absolute URLs without brackets: the
  scheme is the text before the first colon, the netloc what follows \<open>//\<close> up to the next
  \<open>/\<close>, \<open>?\<close> or \<open>#\<close>; joining an absolute reference gives that reference.
\<close>

definition simple_urlparse :: urlparse where
  "simple_urlparse u =
     (let scheme = takeWhile (\<lambda>c. c \<noteq> CHR '':'') u;
          rest = drop (Suc (length scheme)) u
      in if prefix ''//'' rest
         then Some (scheme, takeWhile (\<lambda>c. c \<notin> set ''/?#'') (drop 2 rest))
         else Some (scheme, ''''))"

definition simple_urljoin :: urljoin where
  "simple_urljoin base href = Some href"

definition home_page :: response where
  "home_page =
     \<lparr>content_type = Some ''text/html; charset=utf-8'', status_code = 200,
      html = \<lparr>h1 = [''Welcome''], h2 = [], title = Some (Some ''Home''),
              meta_description = None,
              hrefs = [''http://example.com/about'', ''http://example.com/image.png'',
                       ''http://other.com/page'']\<rparr>\<rparr>"

definition busy_page :: response where
  "busy_page =
     \<lparr>content_type = Some ''text/html'', status_code = 429,
      html = \<lparr>h1 = [], h2 = [''Too many requests''], title = None,
              meta_description = None,
              hrefs = [''http://example.com/contact'']\<rparr>\<rparr>"

definition bare_page :: response where
  "bare_page =
     \<lparr>content_type = Some ''text/html'', status_code = 200,
      html = \<lparr>h1 = [], h2 = [], title = None, meta_description = None, hrefs = []\<rparr>\<rparr>"

definition first_pass :: "event list" where
  \<comment> \<open>Worker 0 takes the seed and gets \<open>home_page\<close>; worker 1 takes the link to
      \<open>/about\<close> and gets \<open>busy_page\<close>.\<close>
  "first_pass =
     [Get 0, Check 0, Process 0 (Response home_page), Link 0, Link 0,
      Get 1, Check 1, Process 1 (Response busy_page), Link 1]"

definition whole_run :: "event list" where
  \<comment> \<open>The first pass, the ten workers timing out, the retry pass in which worker 0
      takes the re-enqueued URL, the five workers timing out, and the report.\<close>
  "whole_run =
     first_pass @ map Empty [0..<10] @ [Join, Get 0, Check 0] @ map Empty [0..<5] @
     [Join, WriteCsv [''H2 - 1'', ''URL'', ''Title'', ''H1 - 1'', ''META Description'', ''Status code'']]"

definition long_page :: response where
  "long_page =
     \<lparr>content_type = Some ''text/html'', status_code = 200,
      html = \<lparr>h1 = [''a'', ''b'', ''c'', ''d'', ''e'', ''f'', ''g'', ''h'', ''i'', ''j''],
              h2 = [''k''], title = Some (Some ''Long''), meta_description = Some (Some ''Ten''),
              hrefs = []\<rparr>\<rparr>"

definition whole_run_final :: state where
  \<comment> \<open>The state in which \<open>whole_run\<close> ends.\<close>
  "whole_run_final =
     \<lparr>start_url = ''http://example.com'', domain = ''http://example.com'',
      visited_urls = {''http://example.com/about'', ''http://example.com''},
      to_visit_urls = [], unfinished_tasks = 0,
      all_headers = {''H1 - 1'', ''URL'', ''Status code'', ''H2 - 1'', ''Title'', ''META Description''},
      all_rows =
        [[(''URL'', PyStr ''http://example.com''), (''Status code'', PyInt 200),
          (''H1 - 1'', PyStr ''Welcome''), (''Title'', PyStr ''Home''),
          (''META Description'', PyStr '''')]],
      retry_urls = [''http://example.com/about''],
      workers = [Exited, Exited, Exited, Exited, Exited], phase = Finished,
      csv_output =
        Some (Inr \<lparr>filename = ''http___example.com_scraped_results.csv'',
                   fieldnames = [''Status code'', ''URL'', ''Title'', ''META Description'',
                                 ''H1 - 1'', ''H2 - 1''],
                   data_rows = [[''200'', ''http://example.com'', ''Home'', '''', ''Welcome'', '''']]\<rparr>),
      fetch_log = [(Pass1, ''http://example.com''), (Pass1, ''http://example.com/about'')]\<rparr>"

definition empty_seed_run :: "event list" where
  \<comment> \<open>Worker 0 takes the seed, the fetch fails, the ten workers time out, the report is
      written.\<close>
  "empty_seed_run =
     [Get 0, Check 0, Process 0 Failed, Link 0] @ map Empty [0..<10] @
     [Join, WriteCsv [''URL'', ''Title'', ''META Description'', ''Status code'']]"

definition about_claimed :: state where
  \<comment> \<open>The state after the first seven events of \<open>first_pass\<close>: worker 1 has claimed the
      link to \<open>/about\<close> and is about to fetch it.\<close>
  "about_claimed =
     \<lparr>start_url = ''http://example.com'', domain = ''http://example.com'',
      visited_urls = {''http://example.com/about'', ''http://example.com''},
      to_visit_urls = [], unfinished_tasks = 1,
      all_headers = {''URL'', ''Status code'', ''H1 - 1'', ''Title'', ''META Description''},
      all_rows =
        [[(''URL'', PyStr ''http://example.com''), (''Status code'', PyInt 200),
          (''H1 - 1'', PyStr ''Welcome''), (''Title'', PyStr ''Home''),
          (''META Description'', PyStr '''')]],
      retry_urls = [],
      workers = [Idle, Claimed ''http://example.com/about'', Idle, Idle, Idle, Idle, Idle,
                 Idle, Idle, Idle],
      phase = Pass1, csv_output = None,
      fetch_log = [(Pass1, ''http://example.com'')]\<rparr>"

definition busy_record :: page_data where
  \<comment> \<open>What \<open>scrape_page\<close> builds from \<open>busy_page\<close>.\<close>
  "busy_record =
     [(''URL'', PyStr ''http://example.com/about''), (''Status code'', PyInt 429),
      (''H2 - 1'', PyStr ''Too many requests''), (''Title'', PyStr ''''),
      (''META Description'', PyStr '''')]"

definition long_run :: "event list" where
  \<comment> \<open>Worker 0 takes the seed and gets \<open>long_page\<close>.\<close>
  "long_run = [Get 0, Check 0, Process 0 (Response long_page)]"

definition long_run_headers :: "string list" where
  \<comment> \<open>An order in which the set \<open>all_headers\<close> may be iterated after \<open>long_run\<close>.\<close>
  "long_run_headers =
     [''H1 - 10'', ''H2 - 1'', ''URL'', ''H1 - 9'', ''H1 - 2'', ''Title'', ''H1 - 1'', ''H1 - 3'',
      ''Status code'', ''H1 - 8'', ''H1 - 4'', ''H1 - 7'', ''META Description'', ''H1 - 5'',
      ''H1 - 6'']"

definition bare_record :: page_data where
  \<comment> \<open>What \<open>scrape_page\<close> builds from \<open>bare_page\<close>, fetched as the seed.\<close>
  "bare_record =
     [(''URL'', PyStr ''http://example.com''), (''Status code'', PyInt 200),
      (''Title'', PyStr ''''), (''META Description'', PyStr '''')]"

definition empty_seed_final :: state where
  \<comment> \<open>The state in which \<open>empty_seed_run\<close> ends, from the empty input.\<close>
  "empty_seed_final =
     \<lparr>start_url = ''http:'', domain = ''http://'', visited_urls = {''http:''},
      to_visit_urls = [], unfinished_tasks = 0,
      all_headers = {''URL'', ''Title'', ''META Description'', ''Status code''},
      all_rows = [], retry_urls = [],
      workers = [Exited, Exited, Exited, Exited, Exited, Exited, Exited, Exited, Exited, Exited],
      phase = Finished,
      csv_output =
        Some (Inr \<lparr>filename = ''http__scraped_results.csv'',
                   fieldnames = [''Status code'', ''URL'', ''Title'', ''META Description''],
                   data_rows = []\<rparr>),
      fetch_log = [(Pass1, ''http:'')]\<rparr>"

section \<open>Normalisation\<close>

lemma lower_char_idem: "lower_char (lower_char c) = lower_char c"
proof -
  have "of_char c < (256::nat)" by (simp add: of_char_def)
  thus ?thesis by (auto simp: lower_char_def Let_def)
qed

lemma lower_idem: "lower (lower s) = lower s"
  by (simp add: lower_def lower_char_idem)

lemma lower_fixed: "\<forall>c\<in>set s. lower_char c = c \<Longrightarrow> lower s = s"
  by (simp add: lower_def map_idI)

lemma rstrip_chars_subset: "set (rstrip_chars cs s) \<subseteq> set s"
  using set_dropWhileD by (fastforce simp: rstrip_chars_def)

lemma rstrip_chars_idem: "rstrip_chars cs (rstrip_chars cs s) = rstrip_chars cs s"
  by (simp add: rstrip_chars_def)

lemma lower_normalize_url: "lower (normalize_url u) = normalize_url u"
proof (rule lower_fixed, rule ballI)
  fix c assume "c \<in> set (normalize_url u)"
  then have "c \<in> set (lower u)"
    using rstrip_chars_subset by (auto simp: normalize_url_def)
  then show "lower_char c = c"
    by (auto simp: lower_def lower_char_idem)
qed

text \<open>
  C9. Normalisation is idempotent: normalising a normalised URL changes nothing, for
  every string.
\<close>

theorem normalize_url_idempotent: "normalize_url (normalize_url u) = normalize_url u"
proof -
  have "normalize_url (normalize_url u) = rstrip_chars {CHR ''/''} (lower (normalize_url u))"
    by (simp add: normalize_url_def)
  also have "\<dots> = rstrip_chars {CHR ''/''} (normalize_url u)"
    by (simp add: lower_normalize_url)
  also have "\<dots> = normalize_url u"
    by (simp add: normalize_url_def rstrip_chars_idem)
  finally show ?thesis .
qed

section \<open>Effect of \<open>process_url\<close> on the state\<close>

lemma process_url_frame:
  assumes "process_url up uj u r s = (s', res)"
  shows "visited_urls s' = visited_urls s" "to_visit_urls s' = to_visit_urls s"
    "unfinished_tasks s' = unfinished_tasks s" "workers s' = workers s"
    "phase s' = phase s" "domain s' = domain s" "start_url s' = start_url s"
    "csv_output s' = csv_output s"
  using assms
  by (auto simp: process_url_def Let_def split: if_splits sum.splits option.splits prod.splits)

lemma process_url_log:
  assumes "process_url up uj u r s = (s', res)"
  shows "fetch_log s' = (if is_pagination_link u then fetch_log s else fetch_log s @ [(phase s, u)])"
  using assms
  by (auto simp: process_url_def Let_def split: if_splits sum.splits option.splits prod.splits)

lemma process_url_retry:
  assumes "process_url up uj u r s = (s', res)"
  shows "retry_urls s' = retry_urls s \<or> (retry_urls s' = retry_urls s @ [u] \<and> \<not> is_pagination_link u)"
  using assms
  by (auto simp: process_url_def Let_def split: if_splits sum.splits option.splits prod.splits)

lemma process_url_rows:
  assumes "process_url up uj u r s = (s', res)"
  shows "all_rows s' = all_rows s \<or>
    (\<exists>pd links. scrape_page up uj u (domain s) r = Inr (Some pd, links) \<and> all_rows s' = all_rows s @ [pd])"
  using assms
  by (auto simp: process_url_def Let_def split: if_splits sum.splits option.splits prod.splits)

lemma process_url_links:
  assumes "process_url up uj u r s = (s', Inr links)"
  shows "links = [] \<or> (\<exists>pd. scrape_page up uj u (domain s) r = Inr (Some pd, links))"
  using assms
  by (auto simp: process_url_def Let_def split: if_splits sum.splits option.splits prod.splits)

lemma process_url_headers:
  assumes "process_url up uj u r s = (s', res)"
  shows "all_headers s' = all_headers s \<union>
    (if is_pagination_link u then {}
     else case scrape_page up uj u (domain s) r of
            Inr (Some pd, links) \<Rightarrow> fst ` set pd
          | _ \<Rightarrow> {})"
  using assms
  by (force simp: process_url_def Let_def split: if_splits sum.splits option.splits prod.splits)

section \<open>Each URL is fetched at most once\<close>

lemma inv_once_start: "main_init up input_url = Inr s \<Longrightarrow> inv_once s"
  by (auto simp: main_init_def inv_once_def Let_def split: option.splits)

lemma inv_once_claimed_unique:
  assumes "inv_once s" and "i < length (workers s)" and "j < length (workers s)"
    and "workers s ! i = Claimed u" and "workers s ! j = Claimed u"
  shows "i = j"
proof -
  from assms(1) have "\<forall>i<length (workers s). \<forall>j<length (workers s). \<forall>u.
        workers s ! i = Claimed u \<and> workers s ! j = Claimed u \<longrightarrow> i = j"
    by (simp add: inv_once_def)
  with assms(2-5) show ?thesis by blast
qed

lemma inv_once_claimed:
  assumes "inv_once s" and "i < length (workers s)" and "workers s ! i = Claimed u"
  shows "u \<in> visited_urls s" "u \<notin> snd ` set (fetch_log s)"
proof -
  from assms(1) have "\<forall>i<length (workers s). \<forall>u. workers s ! i = Claimed u \<longrightarrow>
        u \<in> visited_urls s \<and> u \<notin> snd ` set (fetch_log s)"
    by (simp add: inv_once_def)
  with assms(2,3) show "u \<in> visited_urls s" "u \<notin> snd ` set (fetch_log s)" by blast+
qed

lemma inv_once_log:
  assumes "inv_once s"
  shows "distinct (map snd (fetch_log s))" "snd ` set (fetch_log s) \<subseteq> visited_urls s"
    "set (retry_urls s) \<subseteq> snd ` set (fetch_log s)"
  using assms by (simp_all add: inv_once_def)

lemma nth_update_Claimed:
  "\<forall>u. x \<noteq> Claimed u \<Longrightarrow> i < length ws \<Longrightarrow> ws[w := x] ! i = Claimed u \<Longrightarrow> ws ! i = Claimed u"
  by (cases "i = w") auto

lemma inv_once_release:
  assumes "inv_once s" and "\<forall>u. x \<noteq> Claimed u"
    and "fetch_log s' = fetch_log s" and "visited_urls s' = visited_urls s"
    and "retry_urls s' = retry_urls s" and "workers s' = (workers s)[w := x]"
  shows "inv_once s'"
  unfolding inv_once_def
proof (intro conjI allI impI)
  show "distinct (map snd (fetch_log s'))" "snd ` set (fetch_log s') \<subseteq> visited_urls s'"
    "set (retry_urls s') \<subseteq> snd ` set (fetch_log s')"
    using assms(1) by (simp_all add: assms(3-5) inv_once_def)
next
  fix i u assume iu: "i < length (workers s')" "workers s' ! i = Claimed u"
  then have i: "i < length (workers s)" and ci: "(workers s)[w := x] ! i = Claimed u"
    by (simp_all add: assms(6))
  have "workers s ! i = Claimed u"
    by (rule nth_update_Claimed[OF assms(2) i ci])
  with i show "u \<in> visited_urls s'" "u \<notin> snd ` set (fetch_log s')"
    using inv_once_claimed[OF assms(1)] by (simp_all add: assms(3,4))
next
  fix i j u assume "i < length (workers s')" "j < length (workers s')"
    "workers s' ! i = Claimed u \<and> workers s' ! j = Claimed u"
  then have i: "i < length (workers s)" and j: "j < length (workers s)"
    and ci: "(workers s)[w := x] ! i = Claimed u" and cj: "(workers s)[w := x] ! j = Claimed u"
    by (simp_all add: assms(6))
  have "workers s ! i = Claimed u" "workers s ! j = Claimed u"
    by (rule nth_update_Claimed[OF assms(2) i ci], rule nth_update_Claimed[OF assms(2) j cj])
  with i j show "i = j"
    using inv_once_claimed_unique[OF assms(1)] by blast
qed

lemma inv_once_task_done: "inv_once s \<Longrightarrow> inv_once (task_done w s)"
  by (erule inv_once_release[where s' = "task_done w s" and w = w
        and x = "if unfinished_tasks s = 0 then Exited else Idle"])
     (simp_all add: task_done_def)

lemma inv_once_Get:
  assumes "step up uj (Get w) s = Some s'" and "inv_once s"
  shows "inv_once s'"
proof -
  from assms(1) obtain u q where s': "s' = s\<lparr>to_visit_urls := q, workers := (workers s)[w := Got u]\<rparr>"
    by (auto split: if_splits list.splits)
  show ?thesis
    by (rule inv_once_release[OF assms(2), where w = w and x = "Got u"]) (simp_all add: s')
qed

lemma inv_once_Empty:
  assumes "step up uj (Empty w) s = Some s'" and "inv_once s"
  shows "inv_once s'"
proof -
  from assms(1) have s': "s' = s\<lparr>workers := (workers s)[w := Exited]\<rparr>"
    by (auto split: if_splits)
  show ?thesis
    by (rule inv_once_release[OF assms(2), where w = w and x = Exited]) (simp_all add: s')
qed

lemma inv_once_Link:
  assumes "step up uj (Link w) s = Some s'" and "inv_once s"
  shows "inv_once s'"
proof -
  from assms(1) obtain ls where w: "w < length (workers s)" and l: "workers s ! w = Linking ls"
    by (auto split: if_splits wstate.splits)
  show ?thesis
  proof (cases ls)
    case Nil
    with assms(1) w l have "s' = task_done w s" by simp
    then show ?thesis using assms(2) by (simp add: inv_once_task_done)
  next
    case (Cons a rest)
    with assms(1) w l
    have s': "s' = (if a \<notin> visited_urls s then put a s else s)\<lparr>workers := (workers s)[w := Linking rest]\<rparr>"
      by (simp add: put_def)
    show ?thesis
      by (rule inv_once_release[OF assms(2), where w = w and x = "Linking rest"])
        (simp_all add: s' put_def)
  qed
qed

lemma inv_once_Check:
  assumes "step up uj (Check w) s = Some s'" and "inv_once s"
  shows "inv_once s'"
proof -
  from assms(1) obtain u where w: "w < length (workers s)" and g: "workers s ! w = Got u"
    and s': "s' = (if u \<in> visited_urls s then task_done w s
        else s\<lparr>visited_urls := insert u (visited_urls s), workers := (workers s)[w := Claimed u]\<rparr>)"
    by (auto split: if_splits wstate.splits)
  show ?thesis
  proof (cases "u \<in> visited_urls s")
    case True
    then show ?thesis using assms(2) s' by (simp add: inv_once_task_done)
  next
    case False
    have fresh: "u \<notin> snd ` set (fetch_log s)"
      using inv_once_log(2)[OF assms(2)] False by blast
    have none: "\<And>j. j < length (workers s) \<Longrightarrow> workers s ! j \<noteq> Claimed u"
      using inv_once_claimed(1)[OF assms(2)] False by blast
    have s'': "s' = s\<lparr>visited_urls := insert u (visited_urls s), workers := (workers s)[w := Claimed u]\<rparr>"
      using s' False by simp
    have upd: "(i = w \<and> v = u) \<or> (i \<noteq> w \<and> workers s ! i = Claimed v)"
      if "i < length (workers s)" and "(workers s)[w := Claimed u] ! i = Claimed v" for i v
      using that by (cases "i = w") auto
    show ?thesis
      unfolding inv_once_def
    proof (intro conjI allI impI)
      show "distinct (map snd (fetch_log s'))" "snd ` set (fetch_log s') \<subseteq> visited_urls s'"
        "set (retry_urls s') \<subseteq> snd ` set (fetch_log s')"
        using inv_once_log[OF assms(2)] by (auto simp: s'')
    next
      fix i v assume i: "i < length (workers s')" "workers s' ! i = Claimed v"
      then have "i < length (workers s)" "(workers s)[w := Claimed u] ! i = Claimed v"
        by (simp_all add: s'')
      from upd[OF this] this(1) have "v \<in> insert u (visited_urls s) \<and> v \<notin> snd ` set (fetch_log s)"
        using inv_once_claimed[OF assms(2), of i v] fresh by blast
      then show "v \<in> visited_urls s'" "v \<notin> snd ` set (fetch_log s')"
        by (simp_all add: s'')
    next
      fix i j v assume "i < length (workers s')" "j < length (workers s')"
        "workers s' ! i = Claimed v \<and> workers s' ! j = Claimed v"
      then have ij: "i < length (workers s)" "j < length (workers s)"
        "(workers s)[w := Claimed u] ! i = Claimed v" "(workers s)[w := Claimed u] ! j = Claimed v"
        by (simp_all add: s'')
      from upd[OF ij(1,3)] upd[OF ij(2,4)] show "i = j"
        using none ij(1,2) inv_once_claimed_unique[OF assms(2) ij(1,2)] by blast
    qed
  qed
qed

lemma fold_put_fields:
  "visited_urls (fold put us s) = visited_urls s"
  "fetch_log (fold put us s) = fetch_log s"
  "retry_urls (fold put us s) = retry_urls s"
  "to_visit_urls (fold put us s) = to_visit_urls s @ us"
  "unfinished_tasks (fold put us s) = unfinished_tasks s + length us"
  "workers (fold put us s) = workers s"
  "phase (fold put us s) = phase s"
  "all_rows (fold put us s) = all_rows s"
  "all_headers (fold put us s) = all_headers s"
  "domain (fold put us s) = domain s"
  "start_url (fold put us s) = start_url s"
  by (induction us arbitrary: s; simp add: put_def)+

lemma inv_once_Join:
  assumes "step up uj Join s = Some s'" and "inv_once s"
  shows "inv_once s'"
proof -
  from assms(1) consider
      "s' = (fold put (retry_urls s) s)\<lparr>workers := replicate 5 Idle, phase := Pass2\<rparr>"
    | "s' = s\<lparr>phase := Writing\<rparr>"
    by (auto split: if_splits phase.splits)
  then show ?thesis
  proof cases
    case 1
    then show ?thesis
      using inv_once_log[OF assms(2)] by (simp add: inv_once_def fold_put_fields)
  next
    case 2
    then show ?thesis using assms(2) by (simp add: inv_once_def)
  qed
qed

lemma inv_once_WriteCsv:
  assumes "step up uj (WriteCsv hs) s = Some s'" and "inv_once s"
  shows "inv_once s'"
proof -
  from assms(1) have "s' = s\<lparr>phase := Finished, csv_output := Some (write_csv hs s)\<rparr>"
    by (auto split: if_splits)
  then show ?thesis using assms(2) by (simp add: inv_once_def)
qed

lemma inv_once_Process:
  assumes "step up uj (Process w r) s = Some s'" and "inv_once s"
  shows "inv_once s'"
proof -
  from assms(1) obtain u s1 res where w: "w < length (workers s)" and cl: "workers s ! w = Claimed u"
    and p: "process_url up uj u r s = (s1, res)"
    and s': "s' = s1\<lparr>workers := (workers s1)[w := (case res of Inl e \<Rightarrow> Exited | Inr links \<Rightarrow> Linking links)]\<rparr>"
    by (auto split: if_splits wstate.splits prod.splits sum.splits)
  note fr = process_url_frame[OF p] and lg = process_url_log[OF p] and rt = process_url_retry[OF p]
  note u = inv_once_claimed[OF assms(2) w cl]
  have x: "\<forall>v. (case res of Inl e \<Rightarrow> Exited | Inr links \<Rightarrow> Linking links) \<noteq> Claimed v"
    by (simp split: sum.splits)
  have upd: "i \<noteq> w \<and> workers s ! i = Claimed v"
    if "i < length (workers s)" and "workers s' ! i = Claimed v" for i v
    using that x w by (cases "i = w") (auto simp: s' fr)
  show ?thesis
    unfolding inv_once_def
  proof (intro conjI allI impI)
    show "distinct (map snd (fetch_log s'))"
      using inv_once_log(1)[OF assms(2)] u by (simp add: s' lg)
    show "snd ` set (fetch_log s') \<subseteq> visited_urls s'"
      using inv_once_log(2)[OF assms(2)] u by (simp add: s' lg fr)
    show "set (retry_urls s') \<subseteq> snd ` set (fetch_log s')"
      using inv_once_log(3)[OF assms(2)] rt by (auto simp: s' lg)
  next
    fix i v assume "i < length (workers s')" "workers s' ! i = Claimed v"
    then have i: "i < length (workers s)" and c: "workers s' ! i = Claimed v"
      by (simp_all add: s' fr)
    from upd[OF i c] have n: "i \<noteq> w" and ci: "workers s ! i = Claimed v" by simp_all
    from n inv_once_claimed_unique[OF assms(2) i w ci] cl have "v \<noteq> u" by blast
    with inv_once_claimed[OF assms(2) i ci]
    show "v \<in> visited_urls s'" "v \<notin> snd ` set (fetch_log s')"
      by (simp_all add: s' lg fr)
  next
    fix i j v assume "i < length (workers s')" "j < length (workers s')"
      "workers s' ! i = Claimed v \<and> workers s' ! j = Claimed v"
    then have i: "i < length (workers s)" and j: "j < length (workers s)"
      and ci: "workers s' ! i = Claimed v" and cj: "workers s' ! j = Claimed v"
      by (simp_all add: s' fr)
    from upd[OF i ci] upd[OF j cj] show "i = j"
      using inv_once_claimed_unique[OF assms(2) i j] by blast
  qed
qed

lemma inv_once_step: "step up uj e s = Some s' \<Longrightarrow> inv_once s \<Longrightarrow> inv_once s'"
  by (cases e) (blast intro: inv_once_Get inv_once_Empty inv_once_Check inv_once_Process
      inv_once_Link inv_once_Join inv_once_WriteCsv)+

lemma reachable_inv_once: "reachable up uj input_url s \<Longrightarrow> inv_once s"
  by (induction rule: reachable.induct) (auto intro: inv_once_start inv_once_step)

section \<open>No fetch after the first pass\<close>

lemma busy_update:
  "w < length ws \<Longrightarrow> sum_list (map busy (ws[w := x])) + busy (ws ! w) = sum_list (map busy ws) + busy x"
proof (induction ws arbitrary: w)
  case Nil
  then show ?case by simp
next
  case (Cons a ws)
  then show ?case by (cases w) auto
qed

lemma busy_zero: "sum_list (map busy ws) = 0 \<Longrightarrow> i < length ws \<Longrightarrow> busy (ws ! i) = 0"
  by (induction ws arbitrary: i) (auto simp: nth_Cons split: nat.splits)

lemma inv_retry_start: "main_init up input_url = Inr s \<Longrightarrow> inv_retry s"
  by (auto simp: main_init_def inv_retry_def Let_def busy_def split: option.splits)

lemma inv_retry_settled:
  assumes "inv_retry s" and "phase s \<noteq> Pass1" and "i < length (workers s)"
  shows "settled (visited_urls s) (workers s ! i)"
  using assms by (simp add: inv_retry_def)

lemma settled_update:
  assumes "\<forall>i<length ws. settled V (ws ! i)" and "settled V x" and "i < length (ws[w := x])"
  shows "settled V (ws[w := x] ! i)"
  using assms by (cases "i = w") auto

lemma inv_retry_worker:
  assumes "inv_retry s" and w: "w < length (workers s)"
    and "fetch_log s' = fetch_log s" and "visited_urls s' = visited_urls s"
    and "phase s' = phase s" and "workers s' = (workers s)[w := x]"
    and "phase s \<noteq> Pass1 \<longrightarrow> settled (visited_urls s) x \<and> set (to_visit_urls s') \<subseteq> visited_urls s"
    and "length (to_visit_urls s') + busy x + unfinished_tasks s
         \<le> length (to_visit_urls s) + busy (workers s ! w) + unfinished_tasks s'"
  shows "inv_retry s'"
  unfolding inv_retry_def
proof (intro conjI impI allI)
  show "fst ` set (fetch_log s') \<subseteq> {Pass1}"
    using assms(1) by (simp add: assms(3) inv_retry_def)
  have "length (to_visit_urls s) + sum_list (map busy (workers s)) \<le> unfinished_tasks s"
    using assms(1) by (simp add: inv_retry_def)
  with busy_update[OF w, of x] assms(8)
  show "length (to_visit_urls s') + sum_list (map busy (workers s')) \<le> unfinished_tasks s'"
    by (simp add: assms(6))
next
  assume "phase s' \<noteq> Pass1"
  then have p: "phase s \<noteq> Pass1" by (simp add: assms(5))
  with assms(7) show "set (to_visit_urls s') \<subseteq> visited_urls s'"
    by (simp add: assms(4))
  fix i assume i: "i < length (workers s')"
  have "\<forall>i<length (workers s). settled (visited_urls s) (workers s ! i)"
    using assms(1) p by (simp add: inv_retry_def)
  from settled_update[OF this, of x i w] assms(7) p i
  show "settled (visited_urls s') (workers s' ! i)"
    by (simp add: assms(4,6))
qed

lemma inv_retry_queue:
  assumes "inv_retry s" and "phase s \<noteq> Pass1"
  shows "set (to_visit_urls s) \<subseteq> visited_urls s"
  using assms by (simp add: inv_retry_def)

lemma inv_retry_count:
  assumes "inv_retry s"
  shows "length (to_visit_urls s) + sum_list (map busy (workers s)) \<le> unfinished_tasks s"
  using assms by (simp add: inv_retry_def)

lemma busy_le: "w < length ws \<Longrightarrow> busy (ws ! w) \<le> sum_list (map busy ws)"
  by (rule member_le_sum_list) simp_all

lemma inv_retry_task_done:
  assumes "inv_retry s" and w: "w < length (workers s)" and b: "busy (workers s ! w) = 1"
  shows "inv_retry (task_done w s)"
proof -
  from inv_retry_count[OF assms(1)] busy_le[OF w] b have pos: "0 < unfinished_tasks s"
    by linarith
  have q: "phase s \<noteq> Pass1 \<longrightarrow> set (to_visit_urls s) \<subseteq> visited_urls s"
    using assms(1) by (simp add: inv_retry_def)
  show ?thesis
    by (rule inv_retry_worker[OF assms(1) w, where x = Idle])
      (use pos b q in \<open>simp_all add: task_done_def settled_def busy_def\<close>)
qed

lemma inv_retry_Get:
  assumes "step up uj (Get w) s = Some s'" and "inv_retry s"
  shows "inv_retry s'"
proof -
  from assms(1) obtain u q where w: "w < length (workers s)" and i: "workers s ! w = Idle"
    and q: "to_visit_urls s = u # q"
    and s': "s' = s\<lparr>to_visit_urls := q, workers := (workers s)[w := Got u]\<rparr>"
    by (auto split: if_splits list.splits)
  have "phase s \<noteq> Pass1 \<longrightarrow> u \<in> visited_urls s \<and> set q \<subseteq> visited_urls s"
    using assms(2) q by (simp add: inv_retry_def)
  then show ?thesis
    by (intro inv_retry_worker[OF assms(2) w, where x = "Got u"])
      (simp_all add: s' q i settled_def busy_def)
qed

lemma inv_retry_Empty:
  assumes "step up uj (Empty w) s = Some s'" and "inv_retry s"
  shows "inv_retry s'"
proof -
  from assms(1) have w: "w < length (workers s)" and i: "workers s ! w = Idle"
    and s': "s' = s\<lparr>workers := (workers s)[w := Exited]\<rparr>"
    by (auto split: if_splits)
  have "phase s \<noteq> Pass1 \<longrightarrow> set (to_visit_urls s) \<subseteq> visited_urls s"
    using assms(2) by (simp add: inv_retry_def)
  then show ?thesis
    by (intro inv_retry_worker[OF assms(2) w, where x = Exited])
      (simp_all add: s' i settled_def busy_def)
qed

lemma inv_retry_Check:
  assumes "step up uj (Check w) s = Some s'" and "inv_retry s"
  shows "inv_retry s'"
proof -
  from assms(1) obtain u where w: "w < length (workers s)" and g: "workers s ! w = Got u"
    and s': "s' = (if u \<in> visited_urls s then task_done w s
        else s\<lparr>visited_urls := insert u (visited_urls s), workers := (workers s)[w := Claimed u]\<rparr>)"
    by (auto split: if_splits wstate.splits)
  show ?thesis
  proof (cases "u \<in> visited_urls s")
    case True
    then show ?thesis
      using inv_retry_task_done[OF assms(2) w] g s' by (simp add: busy_def)
  next
    case False
    have p: "phase s = Pass1"
      using inv_retry_settled[OF assms(2) _ w] g False by (auto simp: settled_def)
    have c: "length (to_visit_urls s) + sum_list (map busy (workers s)) \<le> unfinished_tasks s"
      using assms(2) by (simp add: inv_retry_def)
    have "sum_list (map busy ((workers s)[w := Claimed u])) = sum_list (map busy (workers s))"
      using busy_update[OF w, of "Claimed u"] g by (simp add: busy_def)
    with c p assms(2) False s' show ?thesis
      by (simp add: inv_retry_def)
  qed
qed

lemma inv_retry_Link:
  assumes "step up uj (Link w) s = Some s'" and "inv_retry s"
  shows "inv_retry s'"
proof -
  from assms(1) obtain ls where w: "w < length (workers s)" and l: "workers s ! w = Linking ls"
    by (auto split: if_splits wstate.splits)
  have p: "phase s = Pass1"
    using inv_retry_settled[OF assms(2) _ w] l by (auto simp: settled_def)
  show ?thesis
  proof (cases ls)
    case Nil
    with assms(1) w l have "s' = task_done w s" by simp
    then show ?thesis using inv_retry_task_done[OF assms(2) w] l by (simp add: busy_def)
  next
    case (Cons a rest)
    with assms(1) w l
    have s': "s' = (if a \<notin> visited_urls s then put a s else s)\<lparr>workers := (workers s)[w := Linking rest]\<rparr>"
      by (simp add: put_def)
    show ?thesis
      by (rule inv_retry_worker[OF assms(2) w, where x = "Linking rest"])
        (simp_all add: s' put_def p l busy_def)
  qed
qed

lemma inv_retry_Process:
  assumes "step up uj (Process w r) s = Some s'" and "inv_retry s"
  shows "inv_retry s'"
proof -
  from assms(1) obtain u s1 res where w: "w < length (workers s)" and cl: "workers s ! w = Claimed u"
    and pu: "process_url up uj u r s = (s1, res)"
    and s': "s' = s1\<lparr>workers := (workers s1)[w := (case res of Inl e \<Rightarrow> Exited | Inr links \<Rightarrow> Linking links)]\<rparr>"
    by (auto split: if_splits wstate.splits prod.splits sum.splits)
  note fr = process_url_frame[OF pu] and lg = process_url_log[OF pu]
  have p: "phase s = Pass1"
    using inv_retry_settled[OF assms(2) _ w] cl by (auto simp: settled_def)
  have c: "length (to_visit_urls s) + sum_list (map busy (workers s)) \<le> unfinished_tasks s"
    and f: "fst ` set (fetch_log s) \<subseteq> {Pass1}"
    using assms(2) by (simp_all add: inv_retry_def)
  have "sum_list (map busy ((workers s)[w := (case res of Inl e \<Rightarrow> Exited | Inr links \<Rightarrow> Linking links)]))
      \<le> sum_list (map busy (workers s))"
    using busy_update[OF w, of "case res of Inl e \<Rightarrow> Exited | Inr links \<Rightarrow> Linking links"] cl
    by (simp add: busy_def split: sum.splits)
  with c f p show ?thesis
    by (simp add: inv_retry_def s' fr lg)
qed

lemma inv_retry_WriteCsv:
  assumes "step up uj (WriteCsv hs) s = Some s'" and "inv_retry s"
  shows "inv_retry s'"
proof -
  from assms(1) have "s' = s\<lparr>phase := Finished, csv_output := Some (write_csv hs s)\<rparr>"
    and "phase s = Writing"
    by (auto split: if_splits)
  then show ?thesis using assms(2) by (simp add: inv_retry_def)
qed

lemma all_exited_settled:
  "list_all (\<lambda>w. w = Exited) ws \<Longrightarrow> i < length ws \<Longrightarrow> settled V (ws ! i)"
  by (simp add: list_all_length settled_def)

lemma inv_retry_Join:
  assumes "step up uj Join s = Some s'" and "inv_retry s" and "inv_once s"
  shows "inv_retry s'"
proof -
  from assms(1) have u0: "unfinished_tasks s = 0" and ex: "list_all (\<lambda>w. w = Exited) (workers s)"
    by (auto split: if_splits)
  with inv_retry_count[OF assms(2)] have q: "to_visit_urls s = []" by simp
  have f: "fst ` set (fetch_log s) \<subseteq> {Pass1}"
    using assms(2) by (simp add: inv_retry_def)
  from assms(1) consider
      "s' = (fold put (retry_urls s) s)\<lparr>workers := replicate 5 Idle, phase := Pass2\<rparr>"
    | "s' = s\<lparr>phase := Writing\<rparr>"
    by (auto split: if_splits phase.splits)
  then show ?thesis
  proof cases
    case 1
    have "set (retry_urls s) \<subseteq> visited_urls s"
      using inv_once_log(2,3)[OF assms(3)] by blast
    then show ?thesis
      using f u0 q by (simp add: 1 inv_retry_def fold_put_fields busy_def settled_def)
  next
    case 2
    have "sum_list (map busy (workers s)) = 0"
      using inv_retry_count[OF assms(2)] u0 by simp
    then show ?thesis
      using f u0 q all_exited_settled[OF ex] by (simp add: 2 inv_retry_def)
  qed
qed

lemma inv_retry_step:
  "step up uj e s = Some s' \<Longrightarrow> inv_once s \<Longrightarrow> inv_retry s \<Longrightarrow> inv_retry s'"
  by (cases e) (blast intro: inv_retry_Get inv_retry_Empty inv_retry_Check inv_retry_Process
      inv_retry_Link inv_retry_Join inv_retry_WriteCsv)+

lemma reachable_inv_retry: "reachable up uj input_url s \<Longrightarrow> inv_retry s"
proof (induction rule: reachable.induct)
  case (start s)
  then show ?case by (rule inv_retry_start)
next
  case (step s e s')
  from step.hyps(1) have "inv_once s" by (rule reachable_inv_once)
  with step.hyps(2) step.IH show ?case by (blast intro: inv_retry_step)
qed

section \<open>Domain containment\<close>

lemma collect_links_domain:
  "collect_links up uj url d hs = Inr links \<Longrightarrow> l \<in> set links \<Longrightarrow> get_domain up l = Some d"
proof (induction hs arbitrary: links)
  case Nil
  then show ?case by simp
next
  case (Cons h hs)
  then show ?case
    by (auto simp: Let_def keep_link_def split: option.splits sum.splits if_splits)
qed

lemma heading_name_not_base:
  "heading_name ''H1'' i \<notin> {''URL'', ''Status code'', ''Title'', ''META Description''}"
  "heading_name ''H2'' i \<notin> {''URL'', ''Status code'', ''Title'', ''META Description''}"
  by (simp_all add: heading_name_def)

lemma map_of_fold_update:
  "(\<forall>(i, t)\<in>set xs. f i \<noteq> k) \<Longrightarrow>
   map_of (fold (\<lambda>(i, t). AList.update (f i) (g t)) xs pd) k = map_of pd k"
  by (induction xs arbitrary: pd) (auto simp: update_conv')

lemma map_of_heading_fields:
  "\<forall>i. heading_name h i \<noteq> k \<Longrightarrow> map_of (heading_fields h tags pd) k = map_of pd k"
  unfolding heading_fields_def by (rule map_of_fold_update) auto

lemma scrape_page_url:
  assumes "scrape_page up uj url d r = Inr (Some pd, links)"
  shows "map_of pd ''URL'' = Some (PyStr url)"
proof -
  have h: "\<forall>i. heading_name ''H1'' i \<noteq> ''URL''" "\<forall>i. heading_name ''H2'' i \<noteq> ''URL''"
    using heading_name_not_base by auto
  from assms show ?thesis
    by (auto simp: scrape_page_def Let_def update_conv' map_of_heading_fields[OF h(1)]
          map_of_heading_fields[OF h(2)]
        split: fetched.splits if_splits sum.splits)
qed

lemma scrape_page_links:
  assumes "scrape_page up uj url d r = Inr (pd, links)" and "l \<in> set links"
  shows "get_domain up l = Some d"
  using assms
  by (auto simp: scrape_page_def Let_def split: fetched.splits if_splits sum.splits
      dest: collect_links_domain)

lemma worker_urls_update:
  "(\<Union>v\<in>set (ws[w := x]). worker_urls v) \<subseteq> worker_urls x \<union> (\<Union>v\<in>set ws. worker_urls v)"
  using set_update_subset_insert[of ws w x] by auto

lemma worker_urls_nth: "w < length ws \<Longrightarrow> worker_urls (ws ! w) \<subseteq> (\<Union>v\<in>set ws. worker_urls v)"
  using nth_mem[of w ws] by blast

lemma inv_domain_start: "main_init up input_url = Inr s \<Longrightarrow> inv_domain up input_url s"
  by (auto simp: main_init_def inv_domain_def held_urls_def worker_urls_def Let_def split: option.splits)

lemma inv_domain_held:
  assumes "inv_domain up input_url s"
    and "start_url s' = start_url s" and "domain s' = domain s" and "all_rows s' = all_rows s"
    and "held_urls s' \<subseteq> held_urls s"
  shows "inv_domain up input_url s'"
  using assms unfolding inv_domain_def by (auto simp: subset_iff)

lemma held_task_done: "held_urls (task_done w s) \<subseteq> held_urls s"
  using worker_urls_update[of "workers s" w Idle] worker_urls_update[of "workers s" w Exited]
  by (auto simp: held_urls_def task_done_def worker_urls_def)

lemma held_task_done_fields:
  "start_url (task_done w s) = start_url s" "domain (task_done w s) = domain s"
  "all_rows (task_done w s) = all_rows s"
  by (simp_all add: task_done_def)

lemma inv_domain_task_done: "inv_domain up input_url s \<Longrightarrow> inv_domain up input_url (task_done w s)"
  by (erule inv_domain_held) (simp_all add: held_task_done_fields held_task_done)

lemma inv_domain_Get:
  assumes "step up uj (Get w) s = Some s'" and "inv_domain up input_url s"
  shows "inv_domain up input_url s'"
proof -
  from assms(1) obtain u q where q: "to_visit_urls s = u # q"
    and s': "s' = s\<lparr>to_visit_urls := q, workers := (workers s)[w := Got u]\<rparr>"
    by (auto split: if_splits list.splits)
  have "held_urls s' \<subseteq> held_urls s"
    using worker_urls_update[of "workers s" w "Got u"]
    by (auto simp: s' q held_urls_def worker_urls_def)
  then show ?thesis
    by (intro inv_domain_held[OF assms(2)]) (simp_all add: s')
qed

lemma inv_domain_Empty:
  assumes "step up uj (Empty w) s = Some s'" and "inv_domain up input_url s"
  shows "inv_domain up input_url s'"
proof -
  from assms(1) have s': "s' = s\<lparr>workers := (workers s)[w := Exited]\<rparr>"
    by (auto split: if_splits)
  have "held_urls s' \<subseteq> held_urls s"
    using worker_urls_update[of "workers s" w Exited]
    by (auto simp: s' held_urls_def worker_urls_def)
  then show ?thesis
    by (intro inv_domain_held[OF assms(2)]) (simp_all add: s')
qed

lemma inv_domain_Check:
  assumes "step up uj (Check w) s = Some s'" and "inv_domain up input_url s"
  shows "inv_domain up input_url s'"
proof -
  from assms(1) obtain u where w: "w < length (workers s)" and g: "workers s ! w = Got u"
    and s': "s' = (if u \<in> visited_urls s then task_done w s
        else s\<lparr>visited_urls := insert u (visited_urls s), workers := (workers s)[w := Claimed u]\<rparr>)"
    by (auto split: if_splits wstate.splits)
  show ?thesis
  proof (cases "u \<in> visited_urls s")
    case True
    then show ?thesis using assms(2) s' by (simp add: inv_domain_task_done)
  next
    case False
    have "u \<in> held_urls s"
      using worker_urls_nth[OF w] g by (auto simp: held_urls_def worker_urls_def)
    then have "held_urls s' \<subseteq> held_urls s"
      using worker_urls_update[of "workers s" w "Claimed u"] False
      by (auto simp: s' held_urls_def worker_urls_def)
    then show ?thesis
      by (intro inv_domain_held[OF assms(2)]) (simp_all add: s' False)
  qed
qed

lemma inv_domain_Link:
  assumes "step up uj (Link w) s = Some s'" and "inv_domain up input_url s"
  shows "inv_domain up input_url s'"
proof -
  from assms(1) obtain ls where w: "w < length (workers s)" and l: "workers s ! w = Linking ls"
    by (auto split: if_splits wstate.splits)
  show ?thesis
  proof (cases ls)
    case Nil
    with assms(1) w l have "s' = task_done w s" by simp
    then show ?thesis using assms(2) by (simp add: inv_domain_task_done)
  next
    case (Cons a rest)
    with assms(1) w l
    have s': "s' = (if a \<notin> visited_urls s then put a s else s)\<lparr>workers := (workers s)[w := Linking rest]\<rparr>"
      by (simp add: put_def)
    have "set ls \<subseteq> held_urls s"
      using worker_urls_nth[OF w] l by (auto simp: held_urls_def worker_urls_def)
    then have "held_urls s' \<subseteq> held_urls s"
      using worker_urls_update[of "workers s" w "Linking rest"] Cons
      by (auto simp: s' held_urls_def worker_urls_def put_def)
    then show ?thesis
      by (intro inv_domain_held[OF assms(2)]) (simp_all add: s' put_def)
  qed
qed

lemma inv_domain_Join:
  assumes "step up uj Join s = Some s'" and "inv_domain up input_url s"
  shows "inv_domain up input_url s'"
proof -
  from assms(1) consider
      "s' = (fold put (retry_urls s) s)\<lparr>workers := replicate 5 Idle, phase := Pass2\<rparr>"
    | "s' = s\<lparr>phase := Writing\<rparr>"
    by (auto split: if_splits phase.splits)
  then show ?thesis
  proof cases
    case 1
    have "held_urls s' \<subseteq> held_urls s"
      by (auto simp: 1 held_urls_def fold_put_fields worker_urls_def)
    then show ?thesis
      by (intro inv_domain_held[OF assms(2)]) (simp_all add: 1 fold_put_fields)
  next
    case 2
    show ?thesis
      by (rule inv_domain_held[OF assms(2)]) (simp_all add: 2 held_urls_def)
  qed
qed

lemma inv_domain_WriteCsv:
  assumes "step up uj (WriteCsv hs) s = Some s'" and "inv_domain up input_url s"
  shows "inv_domain up input_url s'"
proof -
  from assms(1) have s': "s' = s\<lparr>phase := Finished, csv_output := Some (write_csv hs s)\<rparr>"
    by (auto split: if_splits)
  show ?thesis
    by (rule inv_domain_held[OF assms(2)]) (simp_all add: s' held_urls_def)
qed

lemma inv_domain_Process:
  assumes "step up uj (Process w r) s = Some s'" and "inv_domain up input_url s"
  shows "inv_domain up input_url s'"
proof -
  from assms(1) obtain u s1 res where w: "w < length (workers s)" and cl: "workers s ! w = Claimed u"
    and pu: "process_url up uj u r s = (s1, res)"
    and s': "s' = s1\<lparr>workers := (workers s1)[w := (case res of Inl e \<Rightarrow> Exited | Inr links \<Rightarrow> Linking links)]\<rparr>"
    by (auto split: if_splits wstate.splits prod.splits sum.splits)
  note fr = process_url_frame[OF pu] and rt = process_url_retry[OF pu] and rw = process_url_rows[OF pu]
  have held: "\<forall>v\<in>held_urls s. get_domain up v = Some (domain s)"
    using assms(2) by (simp add: inv_domain_def)
  have "u \<in> held_urls s"
    using worker_urls_nth[OF w] cl by (auto simp: held_urls_def worker_urls_def)
  with held have u: "get_domain up u = Some (domain s)" by blast
  have links: "get_domain up l = Some (domain s)" if "res = Inr links" "l \<in> set links" for links l
    using process_url_links[OF pu[unfolded that(1)]] that(2) by (auto dest: scrape_page_links)
  have x: "\<forall>l\<in>worker_urls (case res of Inl e \<Rightarrow> Exited | Inr links \<Rightarrow> Linking links).
      get_domain up l = Some (domain s)"
    using links by (auto simp: worker_urls_def split: sum.splits)
  have "held_urls s' \<subseteq> held_urls s \<union> {u} \<union> worker_urls (case res of Inl e \<Rightarrow> Exited | Inr links \<Rightarrow> Linking links)"
    using worker_urls_update[of "workers s" w "case res of Inl e \<Rightarrow> Exited | Inr links \<Rightarrow> Linking links"] rt
    by (auto simp: s' fr held_urls_def)
  with held u x have held': "\<forall>v\<in>held_urls s'. get_domain up v = Some (domain s)"
    by blast
  have rows: "\<forall>row\<in>set (all_rows s1). \<exists>v. map_of row ''URL'' = Some (PyStr v) \<and> get_domain up v = Some (domain s)"
  proof
    fix row assume row: "row \<in> set (all_rows s1)"
    from rw consider "all_rows s1 = all_rows s"
      | pd links where "scrape_page up uj u (domain s) r = Inr (Some pd, links)"
          "all_rows s1 = all_rows s @ [pd]"
      by blast
    then show "\<exists>v. map_of row ''URL'' = Some (PyStr v) \<and> get_domain up v = Some (domain s)"
    proof cases
      case 1
      with row assms(2) show ?thesis by (simp add: inv_domain_def)
    next
      case 2
      show ?thesis
      proof (cases "row = pd")
        case True
        with scrape_page_url[OF 2(1)] u show ?thesis by blast
      next
        case False
        with row 2(2) assms(2) show ?thesis by (simp add: inv_domain_def)
      qed
    qed
  qed
  show ?thesis
    using assms(2) held' rows by (simp add: inv_domain_def s' fr)
qed

lemma inv_domain_step:
  "step up uj e s = Some s' \<Longrightarrow> inv_domain up input_url s \<Longrightarrow> inv_domain up input_url s'"
  by (cases e) (blast intro: inv_domain_Get inv_domain_Empty inv_domain_Check inv_domain_Process
      inv_domain_Link inv_domain_Join inv_domain_WriteCsv)+

lemma reachable_inv_domain: "reachable up uj input_url s \<Longrightarrow> inv_domain up input_url s"
  by (induction rule: reachable.induct) (auto intro: inv_domain_start inv_domain_step)

section \<open>Column order\<close>

lemma is_digit_char_of: "(d::nat) < 10 \<Longrightarrow> is_digit (char_of (48 + d))"
  by (simp add: is_digit_def)

lemma digit_val_char_of: "(d::nat) < 10 \<Longrightarrow> (of_char (char_of (48 + d)) :: nat) - 48 = d"
  by simp

lemma str_nat_digits: "c \<in> set (str_nat n) \<Longrightarrow> is_digit c"
proof (induction n arbitrary: c rule: str_nat.induct)
  case (1 n)
  show ?case
  proof (cases "n < 10")
    case True
    with "1.prems" show ?thesis
      by (simp add: str_nat.simps[of n] is_digit_char_of)
  next
    case False
    with "1.prems" "1.IH" show ?thesis
      by (auto simp: str_nat.simps[of n] is_digit_char_of)
  qed
qed

lemma str_nat_nonempty: "str_nat n \<noteq> []"
  by (subst str_nat.simps) simp

lemma digits_ok_all: "ds \<noteq> [] \<Longrightarrow> \<forall>c\<in>set ds. is_digit c \<Longrightarrow> digits_ok ds"
proof (induction ds rule: digits_ok.induct)
  case (3 c d cs)
  have "d \<noteq> CHR ''_''" using 3(4) by (auto simp: is_digit_def)
  with 3 show ?case by simp
qed simp_all

lemma digits_value_snoc:
  "is_digit c \<Longrightarrow> digits_value (ds @ [c]) = 10 * digits_value ds + (of_char c - 48)"
  by (simp add: digits_value_def)

lemma digits_value_str_nat: "digits_value (str_nat n) = n"
proof (induction n rule: str_nat.induct)
  case (1 n)
  show ?case
  proof (cases "n < 10")
    case True
    then show ?thesis
      by (simp add: str_nat.simps[of n] digits_value_def is_digit_def)
  next
    case False
    have d: "is_digit (char_of (48 + n mod 10))" by (simp add: is_digit_char_of)
    have "digits_value (str_nat n) = 10 * digits_value (str_nat (n div 10)) + n mod 10"
      using False by (simp add: str_nat.simps[of n] digits_value_snoc[OF d])
    with False "1.IH" show ?thesis by simp
  qed
qed

lemma not_space_digit: "is_digit c \<Longrightarrow> \<not> is_space c"
  by (auto simp: is_digit_def is_space_def Let_def)

lemma strip_digits:
  assumes "ds \<noteq> []" and "\<forall>c\<in>set ds. is_digit c"
  shows "strip ('' '' @ ds) = ds"
proof -
  from assms obtain d rest where ds: "ds = d # rest" by (cases ds) auto
  with assms(2) have "\<not> is_space d" by (simp add: not_space_digit)
  then have 1: "dropWhile is_space ('' '' @ ds) = ds"
    by (simp add: ds is_space_def)
  from assms obtain init l where dl: "ds = init @ [l]" by (cases ds rule: rev_cases) auto
  with assms(2) have "\<not> is_space l" by (simp add: not_space_digit)
  then have "dropWhile is_space (rev ds) = rev ds" by (simp add: dl)
  with 1 show ?thesis by (simp add: strip_def)
qed

lemma int_of_str_str_nat: "int_of_str ('' '' @ str_nat n) = Some (int n)"
proof -
  have dg: "\<forall>c\<in>set (str_nat n). is_digit c" using str_nat_digits by blast
  obtain d rest where ds: "str_nat n = d # rest"
    using str_nat_nonempty[of n] by (cases "str_nat n") auto
  with dg have "is_digit d" by simp
  then have nd: "d \<noteq> CHR ''-''" "d \<noteq> CHR ''+''" by (auto simp: is_digit_def)
  have ok: "digits_ok (d # rest)" using digits_ok_all[OF str_nat_nonempty dg] ds by simp
  have v: "digits_value (d # rest) = n" using digits_value_str_nat[of n] ds by simp
  have "strip ('' '' @ str_nat n) = d # rest"
    using strip_digits[OF str_nat_nonempty dg] ds by simp
  then show ?thesis
    using nd ok v by (simp add: int_of_str_def)
qed

lemma split_on_absent: "c \<notin> set s \<Longrightarrow> split_on c s = [s]"
  by (induction s) auto

lemma str_in_prefix: "prefix sub s \<Longrightarrow> str_in sub s"
  by (cases s) auto

lemma str_in_append: "str_in sub (a @ sub @ b)"
  by (induction a) (simp_all add: str_in_prefix)

lemma dash_not_digit: "is_digit c \<Longrightarrow> c \<noteq> CHR ''-''"
  by (auto simp: is_digit_def)

lemma column_key_heading:
  assumes "h = ''H1'' \<or> h = ''H2''"
  shows "column_key (heading_name h i) = Inr (h @ '' '', int i)"
proof -
  have "CHR ''-'' \<notin> set ('' '' @ str_nat i)"
    using str_nat_digits dash_not_digit by auto
  then have sp: "split_on (CHR ''-'') ('' '' @ str_nat i) = ['' '' @ str_nat i]"
    by (rule split_on_absent)
  have "split_on (CHR ''-'') (heading_name h i) = [h @ '' '', '' '' @ str_nat i]"
    using assms sp by (auto simp: heading_name_def)
  moreover have "str_in ''-'' (heading_name h i)"
    using str_in_append[of "''-''" "h @ '' ''" "'' '' @ str_nat i"] by (simp add: heading_name_def)
  moreover have "prefix ''H'' (h @ '' '')" using assms by auto
  ultimately show ?thesis
    using int_of_str_str_nat[of i] by (simp add: column_key_def)
qed

lemma all_keys_Inr: "\<forall>x\<in>set xs. f x = Inr (k x) \<Longrightarrow> all_keys f xs = Inr (map k xs)"
  by (induction xs) auto

lemma insort_key_pair:
  "insort_key fst (k x, x) (map (\<lambda>y. (k y, y)) ys) = map (\<lambda>y. (k y, y)) (insort_key k x ys)"
  by (induction ys) auto

lemma sort_key_pair:
  "sort_key fst (map (\<lambda>y. (k y, y)) xs) = map (\<lambda>y. (k y, y)) (sort_key k xs)"
  by (induction xs) (simp_all add: insort_key_pair)

lemma sorted_by_total:
  assumes "\<forall>x\<in>set xs. f x = Inr (k x)"
  shows "sorted_by f xs = Inr (sort_key k xs)"
proof -
  have "zip (map k xs) xs = map (\<lambda>y. (k y, y)) xs"
    by (induction xs) auto
  then show ?thesis
    by (simp add: sorted_by_def all_keys_Inr[OF assms] sort_key_pair comp_def)
qed

lemma key_of_heading:
  "key_of (heading_name ''H1'' i) = (''H1 '', int i)"
  "key_of (heading_name ''H2'' i) = (''H2 '', int i)"
  by (simp_all add: key_of_def column_key_heading)

lemma map_key_of_heading_columns:
  "map key_of (heading_columns n m) =
     map (\<lambda>i. (''H1 '', int i)) [1..<Suc n] @ map (\<lambda>i. (''H2 '', int i)) [1..<Suc m]"
  by (simp add: heading_columns_def key_of_heading comp_def)

lemma sorted_indexed: "sorted (map (\<lambda>i. (c :: string, int i)) [a..<b])"
proof -
  have "sorted_wrt (\<lambda>i j. (c, int i) \<le> (c, int j)) [a..<b]"
    by (rule sorted_wrt_mono_rel[of _ "(\<le>)"]) simp_all
  then show ?thesis by (simp add: sorted_map)
qed

lemma H1_less_H2: "''H1 '' < ''H2 ''"
  by (simp add: less_char_def)

lemma sorted_heading_keys: "sorted (map key_of (heading_columns n m))"
  using H1_less_H2 by (auto simp: map_key_of_heading_columns sorted_append sorted_indexed)

lemma distinct_heading_keys: "distinct (map key_of (heading_columns n m))"
  by (auto simp: map_key_of_heading_columns distinct_map inj_on_def)

lemma inj_on_key_of_headings: "inj_on key_of (set (heading_columns n m))"
  using distinct_heading_keys[of n m] by (simp add: distinct_map)

lemma distinct_heading_columns: "distinct (heading_columns n m)"
  using distinct_heading_keys[of n m] by (simp add: distinct_map)

lemma column_key_heading_columns:
  "x \<in> set (heading_columns n m) \<Longrightarrow> column_key x = Inr (key_of x)"
  by (auto simp: heading_columns_def key_of_heading column_key_heading)

lemma heading_columns_not_base:
  "x \<in> set (heading_columns n m) \<Longrightarrow> x \<notin> set [''URL'', ''Title'', ''META Description'', ''Status code'']"
  using heading_name_not_base by (auto simp: heading_columns_def)

lemma sort_heading_columns:
  assumes "distinct xs" and "set xs = set (heading_columns n m)"
  shows "sort_key key_of xs = heading_columns n m"
proof (rule map_sorted_distinct_set_unique[where f = key_of])
  show "inj_on key_of (set (sort_key key_of xs) \<union> set (heading_columns n m))"
    using inj_on_key_of_headings[of n m] by (simp add: assms(2))
  show "sorted (map key_of (sort_key key_of xs))" by (rule sorted_sort_key)
  show "distinct (map key_of (sort_key key_of xs))"
    using inj_on_key_of_headings[of n m] assms by (simp add: distinct_map)
  show "sorted (map key_of (heading_columns n m))" by (rule sorted_heading_keys)
  show "distinct (map key_of (heading_columns n m))" by (rule distinct_heading_keys)
  show "set (sort_key key_of xs) = set (heading_columns n m)" by (simp add: assms(2))
qed

lemma column_order_headings:
  assumes "distinct headers" and "set headers = set base_headers \<union> set (heading_columns n m)"
  shows "column_order headers = Inr (base_headers @ heading_columns n m)"
proof -
  let ?rest = "filter (\<lambda>col. col \<notin> set [''URL'', ''Title'', ''META Description'', ''Status code'']) headers"
  have d: "distinct ?rest" using assms(1) by simp
  have s: "set ?rest = set (heading_columns n m)"
    using assms(2) heading_columns_not_base[of _ n m] by (auto simp: base_headers_def)
  have "\<forall>x\<in>set ?rest. column_key x = Inr (key_of x)"
    using s column_key_heading_columns by blast
  then have "sorted_by column_key ?rest = Inr (sort_key key_of ?rest)"
    by (rule sorted_by_total)
  also have "sort_key key_of ?rest = heading_columns n m"
    using d s by (rule sort_heading_columns)
  finally show ?thesis by (simp add: column_order_def)
qed

lemma keys_fold_update:
  "fst ` set (fold (\<lambda>(i, t). AList.update (f i) (g t)) xs pd) = f ` fst ` set xs \<union> fst ` set pd"
proof (induction xs arbitrary: pd)
  case Nil
  show ?case by simp
next
  case (Cons x xs)
  obtain i t where x: "x = (i, t)" by (cases x)
  have "fst ` set (fold (\<lambda>(i, t). AList.update (f i) (g t)) (x # xs) pd) =
      f ` fst ` set xs \<union> fst ` set (AList.update (f i) (g t) pd)"
    by (simp add: x Cons.IH)
  also have "\<dots> = f ` fst ` set (x # xs) \<union> fst ` set pd"
    by (simp add: x dom_update Un_ac insert_commute)
  finally show ?case .
qed

lemma set_heading_columns:
  "set (heading_columns n m) = heading_name ''H1'' ` {1..n} \<union> heading_name ''H2'' ` {1..m}"
  by (simp only: heading_columns_def set_append set_map set_upt atLeastLessThanSuc_atLeastAtMost)

lemma keys_heading_fields:
  "fst ` set (heading_fields h tags pd) = heading_name h ` {1..length tags} \<union> fst ` set pd"
proof -
  have "map fst (List.enumerate 1 tags) = [1..<1 + length tags]"
    by (rule map_fst_enumerate)
  moreover have "1 + length tags = Suc (length tags)" by simp
  ultimately have "map fst (List.enumerate 1 tags) = [1..<Suc (length tags)]"
    by (simp only:)
  then have "fst ` set (List.enumerate 1 tags) = {1..length tags}"
    by (simp only: set_map[symmetric] set_upt atLeastLessThanSuc_atLeastAtMost)
  then show ?thesis
    by (simp only: heading_fields_def keys_fold_update)
qed

lemma scrape_page_keys_exact:
  assumes "scrape_page up uj url d (Response resp) = Inr (Some pd, links)"
  shows "fst ` set pd = set base_headers \<union>
    set (heading_columns (length (h1 (html resp))) (length (h2 (html resp))))"
proof -
  from assms obtain t m where
    pd: "pd = AList.update ''META Description'' (PyStr m) (AList.update ''Title'' (PyStr t)
        (heading_fields ''H2'' (map strip (h2 (html resp)))
          (heading_fields ''H1'' (map strip (h1 (html resp)))
            [(''URL'', PyStr url), (''Status code'', PyInt (status_code resp))])))"
    by (auto simp: scrape_page_def Let_def split: if_splits sum.splits)
  show ?thesis
    by (auto simp: pd dom_update keys_heading_fields base_headers_def set_heading_columns)
qed

lemma scrape_page_keys:
  assumes "scrape_page up uj url d r = Inr (Some pd, links)"
  shows "\<exists>n m. fst ` set pd = set base_headers \<union> set (heading_columns n m)"
proof -
  from assms obtain resp where "r = Response resp"
    by (auto simp: scrape_page_def split: fetched.splits)
  with assms scrape_page_keys_exact show ?thesis by blast
qed

lemma heading_columns_union:
  "set (heading_columns n m) \<union> set (heading_columns n' m') = set (heading_columns (max n n') (max m m'))"
proof -
  have iv: "{1..n} \<union> {1..n'} = {1..max n n'}" for n n' :: nat by auto
  have im: "f ` {1..n} \<union> f ` {1..n'} = f ` {1..max n n'}" for n n' :: nat and f :: "nat \<Rightarrow> string"
    by (simp only: image_Un[symmetric] iv)
  have re: "(A \<union> B) \<union> (A' \<union> B') = (A \<union> A') \<union> (B \<union> B')" for A B A' B' :: "string set"
    by blast
  show ?thesis
    unfolding set_heading_columns by (subst re) (simp only: im)
qed

lemma inv_headers_start: "main_init up input_url = Inr s \<Longrightarrow> inv_headers s"
proof -
  assume "main_init up input_url = Inr s"
  then have "all_headers s = set base_headers \<union> set (heading_columns 0 0)"
    by (auto simp: main_init_def Let_def base_headers_def heading_columns_def split: option.splits)
  then show ?thesis unfolding inv_headers_def by blast
qed

lemma step_all_headers:
  assumes "step up uj e s = Some s'" and "\<forall>w r. e \<noteq> Process w r"
  shows "all_headers s' = all_headers s"
proof (cases e)
  case (Get w)
  with assms(1) show ?thesis by (auto split: if_splits list.splits)
next
  case (Empty w)
  with assms(1) show ?thesis by (auto split: if_splits)
next
  case (Check w)
  with assms(1) show ?thesis by (auto simp: task_done_def split: if_splits wstate.splits)
next
  case (Process w r)
  with assms(2) show ?thesis by simp
next
  case (Link w)
  with assms(1) show ?thesis
    by (auto simp: task_done_def put_def split: if_splits wstate.splits list.splits)
next
  case Join
  with assms(1) show ?thesis by (auto simp: fold_put_fields split: if_splits phase.splits)
next
  case (WriteCsv hs)
  with assms(1) have "s' = s\<lparr>phase := Finished, csv_output := Some (write_csv hs s)\<rparr>"
    by (simp split: if_splits)
  then show ?thesis by simp
qed

lemma inv_headers_step:
  assumes "step up uj e s = Some s'" and "inv_headers s"
  shows "inv_headers s'"
proof (cases "\<exists>w r. e = Process w r")
  case False
  with step_all_headers[OF assms(1)] assms(2) show ?thesis by (simp add: inv_headers_def)
next
  case True
  then obtain w r where e: "e = Process w r" by blast
  with assms(1) obtain u s1 res where pu: "process_url up uj u r s = (s1, res)"
    and s': "all_headers s' = all_headers s1"
    by (auto split: if_splits wstate.splits prod.splits sum.splits)
  from assms(2) obtain n m where nm: "all_headers s = set base_headers \<union> set (heading_columns n m)"
    unfolding inv_headers_def by blast
  show ?thesis
  proof (cases "all_headers s1 = all_headers s")
    case True
    with s' assms(2) show ?thesis by (simp add: inv_headers_def)
  next
    case False
    with process_url_headers[OF pu] obtain pd links where
      sp: "scrape_page up uj u (domain s) r = Inr (Some pd, links)"
      and h: "all_headers s1 = all_headers s \<union> fst ` set pd"
      by (auto split: if_splits sum.splits option.splits prod.splits)
    from scrape_page_keys[OF sp] obtain n' m' where
      "fst ` set pd = set base_headers \<union> set (heading_columns n' m')" by blast
    with h nm have "all_headers s1 = set base_headers \<union> set (heading_columns (max n n') (max m m'))"
      using heading_columns_union[of n m n' m'] by auto
    with s' show ?thesis unfolding inv_headers_def by auto
  qed
qed

lemma reachable_inv_headers: "reachable up uj input_url s \<Longrightarrow> inv_headers s"
  by (induction rule: reachable.induct) (auto intro: inv_headers_start inv_headers_step)

section \<open>Runs and the claims about whole crawls\<close>

lemma run_reachable:
  "reachable up uj input_url s \<Longrightarrow> run up uj es s = Some s' \<Longrightarrow> reachable up uj input_url s'"
proof (induction es arbitrary: s)
  case Nil
  then show ?case by simp
next
  case (Cons e es)
  from Cons.prems(2) obtain s1 where e: "step up uj e s = Some s1" and r: "run up uj es s1 = Some s'"
    by (auto split: option.splits)
  from Cons.prems(1) e have "reachable up uj input_url s1" by (rule reachable.step)
  then show ?case using r by (rule Cons.IH)
qed

lemma crawl_reachable:
  assumes "crawl up uj input_url es = Some s"
  shows "reachable up uj input_url s"
proof -
  from assms obtain s0 where i: "main_init up input_url = Inr s0" and r: "run up uj es s0 = Some s"
    by (auto simp: crawl_def split: sum.splits)
  from i have "reachable up uj input_url s0" by (rule reachable.start)
  then show ?thesis using r by (rule run_reachable)
qed

lemma whole_run_state:
  "crawl simple_urlparse simple_urljoin ''example.com'' whole_run = Some whole_run_final"
  by code_simp

lemma count_list_distinct: "distinct xs \<Longrightarrow> count_list xs x \<le> 1"
  by (induction xs) (auto simp: count_list_0_iff)

lemma count_list_distinct_mem: "distinct xs \<Longrightarrow> x \<in> set xs \<Longrightarrow> count_list xs x = 1"
  by (induction xs) (auto simp: count_list_0_iff)

text \<open>
  C5. In every reachable state of the crawl, under every schedule of the workers and
  whatever the fetches return, a URL has at most one fetch attempt in a pass: the fetch
  log holds the pair of a pass and a URL at most once. The test of \<open>visited_urls\<close> and
  the insertion into it are one step (\<open>Check\<close>), as they are one block under
  \<open>visited_urls_lock\<close> in the source.
\<close>

theorem fetch_at_most_once_per_pass:
  assumes "reachable up uj input_url s"
  shows "count_list (fetch_log s) (p, u) \<le> 1"
proof -
  from assms have "inv_once s" by (rule reachable_inv_once)
  then have "distinct (map snd (fetch_log s))" by (rule inv_once_log(1))
  then have "distinct (fetch_log s)" by (simp add: distinct_map)
  then show ?thesis by (rule count_list_distinct)
qed

theorem fetch_at_most_once_per_pass_witness:
  "reachable simple_urlparse simple_urljoin ''example.com'' whole_run_final \<and>
   (Pass1, ''http://example.com/about'') \<in> set (fetch_log whole_run_final) \<and>
   count_list (fetch_log whole_run_final) (Pass1, ''http://example.com/about'') \<le> 1"
proof -
  have r: "reachable simple_urlparse simple_urljoin ''example.com'' whole_run_final"
    using whole_run_state by (rule crawl_reachable)
  from fetch_at_most_once_per_pass[OF r, of Pass1 "''http://example.com/about''"] r
  show ?thesis by (simp add: whole_run_final_def)
qed

text \<open>
  C1, as the code has it. In every reachable state a URL of the retry list has been
  fetched exactly once over the whole run, and never in the retry pass: the retry pass
  puts it back on the queue, and the worker that dequeues it finds it in \<open>visited_urls\<close>
  and skips it.
\<close>

theorem retry_urls_are_not_fetched_again:
  assumes "reachable up uj input_url s" and "u \<in> set (retry_urls s)"
  shows "count_list (map snd (fetch_log s)) u = 1 \<and> (Pass2, u) \<notin> set (fetch_log s)"
proof -
  from assms(1) have o: "inv_once s" by (rule reachable_inv_once)
  from assms(1) have "inv_retry s" by (rule reachable_inv_retry)
  then have p: "fst ` set (fetch_log s) \<subseteq> {Pass1}" by (simp add: inv_retry_def)
  have "u \<in> set (map snd (fetch_log s))"
    using inv_once_log(3)[OF o] assms(2) by auto
  with inv_once_log(1)[OF o] have "count_list (map snd (fetch_log s)) u = 1"
    by (rule count_list_distinct_mem)
  moreover have "(Pass2, u) \<notin> set (fetch_log s)"
    using p by force
  ultimately show ?thesis by simp
qed

theorem retry_urls_are_not_fetched_again_witness:
  "reachable simple_urlparse simple_urljoin ''example.com'' whole_run_final \<and>
   phase whole_run_final = Finished \<and>
   ''http://example.com/about'' \<in> set (retry_urls whole_run_final) \<and>
   count_list (map snd (fetch_log whole_run_final)) ''http://example.com/about'' = 1 \<and>
   (Pass2, ''http://example.com/about'') \<notin> set (fetch_log whole_run_final)"
proof -
  have r: "reachable simple_urlparse simple_urljoin ''example.com'' whole_run_final"
    using whole_run_state by (rule crawl_reachable)
  have m: "''http://example.com/about'' \<in> set (retry_urls whole_run_final)"
    by (simp add: whole_run_final_def)
  from retry_urls_are_not_fetched_again[OF r m] r m
  show ?thesis by (simp add: whole_run_final_def)
qed

text \<open>
  C8. In every reachable state, every row of the results has a URL whose domain, as
  \<open>get_domain\<close> computes it, is the domain of the sanitised seed.
\<close>

theorem record_urls_stay_in_seed_domain:
  assumes "reachable up uj input_url s" and "row \<in> set (all_rows s)"
  shows "\<exists>u. map_of row ''URL'' = Some (PyStr u) \<and>
           get_domain up u = get_domain up (sanitise_url input_url)"
proof -
  from assms(1) have "inv_domain up input_url s" by (rule reachable_inv_domain)
  with assms(2) show ?thesis by (auto simp: inv_domain_def)
qed

theorem record_urls_stay_in_seed_domain_witness:
  "reachable simple_urlparse simple_urljoin ''example.com'' whole_run_final \<and>
   all_rows whole_run_final \<noteq> [] \<and>
   (\<exists>u. map_of (hd (all_rows whole_run_final)) ''URL'' = Some (PyStr u) \<and>
        get_domain simple_urlparse u = get_domain simple_urlparse (sanitise_url ''example.com''))"
proof -
  have r: "reachable simple_urlparse simple_urljoin ''example.com'' whole_run_final"
    using whole_run_state by (rule crawl_reachable)
  have m: "hd (all_rows whole_run_final) \<in> set (all_rows whole_run_final)"
    by (simp add: whole_run_final_def)
  from record_urls_stay_in_seed_domain[OF r m] r
  show ?thesis by (simp add: whole_run_final_def)
qed

section \<open>Rate-limited pages\<close>

lemma scrape_page_status:
  assumes "scrape_page up uj url d (Response resp) = Inr (Some pd, links)"
  shows "map_of pd ''Status code'' = Some (PyInt (status_code resp))" and "pd \<noteq> []"
proof -
  have h: "\<forall>i. heading_name ''H1'' i \<noteq> ''Status code''" "\<forall>i. heading_name ''H2'' i \<noteq> ''Status code''"
    using heading_name_not_base by auto
  from assms show "map_of pd ''Status code'' = Some (PyInt (status_code resp))"
    by (auto simp: scrape_page_def Let_def update_conv' map_of_heading_fields[OF h(1)]
          map_of_heading_fields[OF h(2)]
        split: if_splits sum.splits)
  then show "pd \<noteq> []" by auto
qed

lemma scrape_page_html:
  assumes "str_in ''text/html'' (case content_type resp of None \<Rightarrow> '''' | Some ct \<Rightarrow> ct)"
    and "scrape_page up uj url d (Response resp) = Inr (page_data, links)"
  shows "\<exists>pd. page_data = Some pd"
  using assms by (auto simp: scrape_page_def Let_def split: if_splits sum.splits)

lemma process_url_rate_limited:
  assumes "\<not> is_pagination_link current_url"
    and "scrape_page up uj current_url (domain s) (Response resp) = Inr (Some pd, links)"
    and "status_code resp = 429"
  shows "process_url up uj current_url (Response resp) s =
    (s\<lparr>fetch_log := fetch_log s @ [(phase s, current_url)],
       all_headers := all_headers s \<union> fst ` set pd,
       retry_urls := retry_urls s @ [current_url]\<rparr>, Inr [])"
  using assms scrape_page_status[OF assms(2)]
  by (simp add: process_url_def Let_def)

text \<open>
  C7. When the fetch of a URL returns status 429 with HTML content and the extraction
  ends without an exception, \<open>scrape_page\<close> has built a record; \<open>process_url\<close> appends
  the URL to \<open>retry_urls\<close>, leaves \<open>all_rows\<close> and the queue as they are, and hands no
  link to its loop over the links, so none is enqueued. This holds in either pass.
\<close>

theorem rate_limited_page_goes_to_retry_list:
  assumes "str_in ''text/html'' (case content_type resp of None \<Rightarrow> '''' | Some ct \<Rightarrow> ct)"
    and "status_code resp = 429"
    and "\<not> is_pagination_link current_url"
    and "scrape_page up uj current_url (domain s) (Response resp) = Inr (page_data, links)"
    and "process_url up uj current_url (Response resp) s = (s', rest)"
  shows "(\<exists>pd. page_data = Some pd) \<and>
         retry_urls s' = retry_urls s @ [current_url] \<and>
         all_rows s' = all_rows s \<and>
         to_visit_urls s' = to_visit_urls s \<and>
         rest = Inr []"
proof -
  from scrape_page_html[OF assms(1,4)] obtain pd where pd: "page_data = Some pd" by blast
  from process_url_rate_limited[OF assms(3) assms(4)[unfolded pd] assms(2)] assms(5)
  show ?thesis by (auto simp: pd)
qed

lemma about_claimed_state:
  "crawl simple_urlparse simple_urljoin ''example.com'' (take 7 first_pass) = Some about_claimed"
  by code_simp

lemma busy_page_scraped:
  "scrape_page simple_urlparse simple_urljoin ''http://example.com/about'' (domain about_claimed)
     (Response busy_page) = Inr (Some busy_record, [''http://example.com/contact''])"
  by code_simp

lemma busy_page_html:
  "str_in ''text/html'' (case content_type busy_page of None \<Rightarrow> '''' | Some ct \<Rightarrow> ct)"
  by code_simp

lemma about_not_pagination: "\<not> is_pagination_link ''http://example.com/about''"
  by code_simp

theorem rate_limited_page_goes_to_retry_list_witness:
  "phase about_claimed = Pass1 \<and>
   workers about_claimed ! 1 = Claimed ''http://example.com/about'' \<and>
   str_in ''text/html'' (case content_type busy_page of None \<Rightarrow> '''' | Some ct \<Rightarrow> ct) \<and>
   status_code busy_page = 429 \<and>
   \<not> is_pagination_link ''http://example.com/about'' \<and>
   scrape_page simple_urlparse simple_urljoin ''http://example.com/about'' (domain about_claimed)
     (Response busy_page) = Inr (Some busy_record, [''http://example.com/contact'']) \<and>
   retry_urls (fst (process_url simple_urlparse simple_urljoin ''http://example.com/about''
      (Response busy_page) about_claimed)) = [''http://example.com/about''] \<and>
   all_rows (fst (process_url simple_urlparse simple_urljoin ''http://example.com/about''
      (Response busy_page) about_claimed)) = all_rows about_claimed \<and>
   to_visit_urls (fst (process_url simple_urlparse simple_urljoin ''http://example.com/about''
      (Response busy_page) about_claimed)) = [] \<and>
   snd (process_url simple_urlparse simple_urljoin ''http://example.com/about''
      (Response busy_page) about_claimed) = Inr []"
proof -
  have c: "status_code busy_page = 429" by (simp add: busy_page_def)
  from rate_limited_page_goes_to_retry_list[OF busy_page_html c about_not_pagination
      busy_page_scraped surjective_pairing]
    busy_page_html c about_not_pagination busy_page_scraped
  show ?thesis by (simp add: about_claimed_def)
qed

text \<open>
  C10. Under the same conditions the names of all fields of the page, its heading
  fields among them, are merged into \<open>all_headers\<close> although no row is appended. The
  report can therefore have a column that is empty in every data row: in the report of
  \<open>whole_run\<close> the column \<open>H2 - 1\<close> comes from the rate-limited page only, and the one
  data row has nothing in it.
\<close>

theorem rate_limited_page_fields_are_merged:
  assumes "str_in ''text/html'' (case content_type resp of None \<Rightarrow> '''' | Some ct \<Rightarrow> ct)"
    and "status_code resp = 429"
    and "\<not> is_pagination_link current_url"
    and "scrape_page up uj current_url (domain s) (Response resp) = Inr (page_data, links)"
    and "process_url up uj current_url (Response resp) s = (s', rest)"
  shows "(\<exists>pd. page_data = Some pd \<and> all_headers s' = all_headers s \<union> fst ` set pd \<and>
            heading_name ''H1'' ` {1..length (h1 (html resp))} \<subseteq> fst ` set pd \<and>
            heading_name ''H2'' ` {1..length (h2 (html resp))} \<subseteq> fst ` set pd) \<and>
         all_rows s' = all_rows s \<and>
         (\<exists>t csv. crawl simple_urlparse simple_urljoin ''example.com'' whole_run = Some t \<and>
            csv_output t = Some (Inr csv) \<and>
            fieldnames csv ! 5 = ''H2 - 1'' \<and>
            data_rows csv = [[''200'', ''http://example.com'', ''Home'', '''', ''Welcome'', '''']])"
proof -
  from scrape_page_html[OF assms(1,4)] obtain pd where pd: "page_data = Some pd" by blast
  note sp = assms(4)[unfolded pd]
  from process_url_rate_limited[OF assms(3) sp assms(2)] assms(5)
  have s': "all_headers s' = all_headers s \<union> fst ` set pd" "all_rows s' = all_rows s"
    by auto
  have keys: "fst ` set pd = set base_headers \<union>
      (heading_name ''H1'' ` {1..length (h1 (html resp))} \<union>
       heading_name ''H2'' ` {1..length (h2 (html resp))})"
    using scrape_page_keys_exact[OF sp] by (simp only: set_heading_columns)
  have ex: "\<exists>t csv. crawl simple_urlparse simple_urljoin ''example.com'' whole_run = Some t \<and>
            csv_output t = Some (Inr csv) \<and>
            fieldnames csv ! 5 = ''H2 - 1'' \<and>
            data_rows csv = [[''200'', ''http://example.com'', ''Home'', '''', ''Welcome'', '''']]"
    using whole_run_state by (simp add: whole_run_final_def)
  show ?thesis
    using pd s' keys ex by blast
qed

theorem rate_limited_page_fields_are_merged_witness:
  "status_code busy_page = 429 \<and>
   scrape_page simple_urlparse simple_urljoin ''http://example.com/about'' (domain about_claimed)
     (Response busy_page) = Inr (Some busy_record, [''http://example.com/contact'']) \<and>
   ''H2 - 1'' \<notin> all_headers about_claimed \<and>
   ''H2 - 1'' \<in> all_headers (fst (process_url simple_urlparse simple_urljoin
      ''http://example.com/about'' (Response busy_page) about_claimed)) \<and>
   all_rows (fst (process_url simple_urlparse simple_urljoin ''http://example.com/about''
      (Response busy_page) about_claimed)) = all_rows about_claimed"
proof -
  have c: "status_code busy_page = 429" by (simp add: busy_page_def)
  have n: "''H2 - 1'' \<notin> all_headers about_claimed" by (simp add: about_claimed_def)
  have h2: "heading_name ''H2'' 1 = ''H2 - 1''" by code_simp
  from rate_limited_page_fields_are_merged[OF busy_page_html c about_not_pagination
      busy_page_scraped surjective_pairing]
  have "''H2 - 1'' \<in> all_headers (fst (process_url simple_urlparse simple_urljoin
      ''http://example.com/about'' (Response busy_page) about_claimed))"
    and "all_rows (fst (process_url simple_urlparse simple_urljoin ''http://example.com/about''
      (Response busy_page) about_claimed)) = all_rows about_claimed"
    using h2 by (auto simp: busy_page_def)
  with c busy_page_scraped n show ?thesis by simp
qed

section \<open>The order of the report columns\<close>

text \<open>
  C6. In every reachable state, whatever the order in which the set \<open>all_headers\<close> is
  iterated, the column order is: Status code, URL, Title, META Description, then the H1
  fields by occurrence number from 1 up, then the H2 fields by occurrence number from 1
  up. The numbers are compared as numbers, so occurrence 10 comes after occurrence 9.
  The program observes no field name other than these, so nothing follows the headings.
  The order is the same for every enumeration of the same set.
\<close>

theorem report_column_order:
  assumes "reachable up uj input_url s" and "distinct headers" and "set headers = all_headers s"
  shows "(\<exists>n m. column_order headers =
            Inr ([''Status code'', ''URL'', ''Title'', ''META Description''] @
                 map (heading_name ''H1'') [1..<Suc n] @ map (heading_name ''H2'') [1..<Suc m])) \<and>
         (\<forall>headers'. distinct headers' \<and> set headers' = set headers \<longrightarrow>
            column_order headers' = column_order headers)"
proof -
  from assms(1) have "inv_headers s" by (rule reachable_inv_headers)
  then obtain n m where nm: "all_headers s = set base_headers \<union> set (heading_columns n m)"
    unfolding inv_headers_def by blast
  have c: "column_order hs = Inr (base_headers @ heading_columns n m)"
    if "distinct hs" and "set hs = set headers" for hs
    using that nm assms(3) by (intro column_order_headings) simp_all
  from c[OF assms(2) refl]
  have "column_order headers =
      Inr ([''Status code'', ''URL'', ''Title'', ''META Description''] @
           map (heading_name ''H1'') [1..<Suc n] @ map (heading_name ''H2'') [1..<Suc m])"
    by (simp only: base_headers_def heading_columns_def)
  moreover have "\<forall>headers'. distinct headers' \<and> set headers' = set headers \<longrightarrow>
      column_order headers' = column_order headers"
    using c c[OF assms(2) refl] by simp
  ultimately show ?thesis by blast
qed

lemma long_run_state:
  "case crawl simple_urlparse simple_urljoin ''example.com'' long_run of
     None \<Rightarrow> False
   | Some s \<Rightarrow> set long_run_headers = all_headers s"
  by code_simp

lemma long_run_headers_sorted:
  "distinct long_run_headers \<and>
   column_order long_run_headers =
     Inr [''Status code'', ''URL'', ''Title'', ''META Description'',
          ''H1 - 1'', ''H1 - 2'', ''H1 - 3'', ''H1 - 4'', ''H1 - 5'', ''H1 - 6'', ''H1 - 7'',
          ''H1 - 8'', ''H1 - 9'', ''H1 - 10'', ''H2 - 1''] \<and>
   column_order (rev long_run_headers) = column_order long_run_headers"
  by code_simp

theorem report_column_order_witness:
  "\<exists>s. crawl simple_urlparse simple_urljoin ''example.com'' long_run = Some s \<and>
       distinct long_run_headers \<and> set long_run_headers = all_headers s \<and>
       (\<exists>n m. column_order long_run_headers =
            Inr ([''Status code'', ''URL'', ''Title'', ''META Description''] @
                 map (heading_name ''H1'') [1..<Suc n] @ map (heading_name ''H2'') [1..<Suc m])) \<and>
       column_order long_run_headers =
         Inr [''Status code'', ''URL'', ''Title'', ''META Description'',
              ''H1 - 1'', ''H1 - 2'', ''H1 - 3'', ''H1 - 4'', ''H1 - 5'', ''H1 - 6'', ''H1 - 7'',
              ''H1 - 8'', ''H1 - 9'', ''H1 - 10'', ''H2 - 1''] \<and>
       column_order (rev long_run_headers) = column_order long_run_headers"
proof -
  from long_run_state obtain s where
    c: "crawl simple_urlparse simple_urljoin ''example.com'' long_run = Some s"
    and h: "set long_run_headers = all_headers s"
    by (auto split: option.splits)
  from c have r: "reachable simple_urlparse simple_urljoin ''example.com'' s"
    by (rule crawl_reachable)
  have d: "distinct long_run_headers" using long_run_headers_sorted by simp
  from report_column_order[OF r d h] c d h long_run_headers_sorted
  show ?thesis by blast
qed

section \<open>Claims that the code does not meet as stated\<close>

lemma scrape_page_title_meta:
  assumes "scrape_page up uj url d (Response resp) = Inr (Some pd, links)"
  shows "\<exists>t m. title_field (title (html resp)) = Inr t \<and>
           meta_field (meta_description (html resp)) = Inr m \<and>
           map_of pd ''Title'' = Some (PyStr t) \<and>
           map_of pd ''META Description'' = Some (PyStr m)"
  using assms
  by (auto simp: scrape_page_def Let_def update_conv' split: if_splits sum.splits)

text \<open>
  C3, as the code has it. A record that \<open>scrape_page\<close> returns always has the fields
  Title and META Description; when the document has no title element, or no meta
  description tag, the field is there with the empty string as its value.
\<close>

theorem absent_title_and_meta_are_empty_strings:
  assumes "scrape_page up uj url d (Response resp) = Inr (Some pd, links)"
  shows "(title (html resp) = None \<longrightarrow> map_of pd ''Title'' = Some (PyStr '''')) \<and>
         (meta_description (html resp) = None \<longrightarrow>
            map_of pd ''META Description'' = Some (PyStr '''')) \<and>
         ''Title'' \<in> fst ` set pd \<and> ''META Description'' \<in> fst ` set pd"
proof -
  from scrape_page_title_meta[OF assms] obtain t m where
    t: "title_field (title (html resp)) = Inr t" and
    m: "meta_field (meta_description (html resp)) = Inr m" and
    pt: "map_of pd ''Title'' = Some (PyStr t)" and
    pm: "map_of pd ''META Description'' = Some (PyStr m)"
    by blast
  have "title (html resp) = None \<longrightarrow> t = ''''"
    using t by (auto simp: title_field_def)
  moreover have "meta_description (html resp) = None \<longrightarrow> m = ''''"
    using m by (auto simp: meta_field_def)
  moreover have "''Title'' \<in> fst ` set pd" "''META Description'' \<in> fst ` set pd"
    using pt pm map_of_SomeD by (force+)
  ultimately show ?thesis using pt pm by simp
qed

lemma bare_page_scraped:
  "scrape_page simple_urlparse simple_urljoin ''http://example.com'' ''http://example.com''
     (Response bare_page) = Inr (Some bare_record, [])"
  by code_simp

theorem absent_title_and_meta_are_empty_strings_witness:
  "scrape_page simple_urlparse simple_urljoin ''http://example.com'' ''http://example.com''
     (Response bare_page) = Inr (Some bare_record, []) \<and>
   title (html bare_page) = None \<and> meta_description (html bare_page) = None \<and>
   map_of bare_record ''Title'' = Some (PyStr '''') \<and>
   map_of bare_record ''META Description'' = Some (PyStr '''') \<and>
   ''Title'' \<in> fst ` set bare_record \<and> ''META Description'' \<in> fst ` set bare_record"
proof -
  have n: "title (html bare_page) = None" "meta_description (html bare_page) = None"
    by (simp_all add: bare_page_def)
  from absent_title_and_meta_are_empty_strings[OF bare_page_scraped] n bare_page_scraped
  show ?thesis by simp
qed

text \<open>
  The claim C3 as stated fails on \<open>bare_page\<close>, a page with neither a title element nor a
  meta description tag: its record has an entry for both fields.
\<close>

theorem absent_fields_omitted_counterexample:
  "title (html bare_page) = None \<and> meta_description (html bare_page) = None \<and>
   scrape_page simple_urlparse simple_urljoin ''http://example.com'' ''http://example.com''
     (Response bare_page) =
     Inr (Some [(''URL'', PyStr ''http://example.com''), (''Status code'', PyInt 200),
                (''Title'', PyStr ''''), (''META Description'', PyStr '''')], []) \<and>
   map_of [(''URL'', PyStr ''http://example.com''), (''Status code'', PyInt 200),
           (''Title'', PyStr ''''), (''META Description'', PyStr '''')] ''Title'' \<noteq> None \<and>
   map_of [(''URL'', PyStr ''http://example.com''), (''Status code'', PyInt 200),
           (''Title'', PyStr ''''), (''META Description'', PyStr '''')] ''META Description'' \<noteq> None"
  by code_simp

text \<open>
  C4, at a link that the claim keeps and the code drops. The link
  \<open>http://example.com/zipcodes\<close> has the domain of the seed, no \<open>#\<close>, none of the
  excluded path substrings, and ends in none of the excluded extensions; it contains
  \<open>zip\<close>, and the test of line 62 is \<open>ext in link\<close>, so the link is not retained.
\<close>

theorem interior_extension_link_is_dropped:
  "get_domain simple_urlparse ''http://example.com/zipcodes'' = Some ''http://example.com'' \<and>
   \<not> str_in ''#'' ''http://example.com/zipcodes'' \<and>
   \<not> list_ex (\<lambda>ext. suffix ext ''http://example.com/zipcodes'') EXCLUDED_EXTENSIONS \<and>
   \<not> list_ex (\<lambda>pattern. str_in pattern ''http://example.com/zipcodes'')
        [''cart'', ''search'', ''terms-of-service''] \<and>
   str_in ''zip'' ''http://example.com/zipcodes'' \<and>
   \<not> keep_link ''http://example.com'' ''http://example.com'' ''http://example.com/zipcodes'' \<and>
   collect_links simple_urlparse simple_urljoin ''http://example.com'' ''http://example.com''
     [''http://example.com/zipcodes'', ''http://example.com/about''] =
     Inr [''http://example.com/about'']"
  by code_simp

text \<open>
  C2, at the empty input. \<open>sanitise_url\<close> returns \<open>http:\<close> (no exception: the function has no
  failing branch), \<open>main\<close> goes on, a worker calls \<open>scrape_page\<close> on \<open>http:\<close>, and the
  report file is written with its header row.
\<close>

theorem empty_seed_is_crawled:
  "sanitise_url '''' = ''http:'' \<and>
   crawl simple_urlparse simple_urljoin '''' empty_seed_run = Some empty_seed_final \<and>
   fetch_log empty_seed_final = [(Pass1, ''http:'')] \<and>
   csv_output empty_seed_final =
     Some (Inr \<lparr>filename = ''http__scraped_results.csv'',
                fieldnames = [''Status code'', ''URL'', ''Title'', ''META Description''],
                data_rows = []\<rparr>)"
  by code_simp

end
